theory Spec2Isabelle
  imports Main "HOL-Library.Word"
begin

section \<open>The event channel of Main.cpp\<close>

text \<open>
  \<^verbatim>\<open>Event_<EventType_>\<close> keeps three static members per event type: \<^verbatim>\<open>State\<close>,
  \<^verbatim>\<open>NextReceiverIndex\<close> and \<^verbatim>\<open>ReceiversContainer\<close>. They are the fields of the record
  \<open>Event\<close> below; every member function takes the record and returns it updated.
  The macro \<^verbatim>\<open>Assert\<close> is modelled by its \<^verbatim>\<open>#else\<close> branch (line 11), where a failed
  assertion evaluates \<^verbatim>\<open>((void*)0)\<close> and execution goes on.
\<close>

subsection \<open>Data\<close>

datatype EventState = Waiting | Sending | Interrupted

datatype ReceiverState = Active | Paused

text \<open>\<^verbatim>\<open>ReceiverIndex_ = size_t\<close>: an unsigned integer that wraps around, 64 bits wide on
  the usual 64-bit targets.\<close>

type_synonym ReceiverIndex = "64 word"

text \<open>
  A receiver is a \<^verbatim>\<open>std::function<void(EventType_&)>\<close>. What such a function can do to the
  channel is a sequence of calls: it writes the event through the reference it was given,
  and it calls the public members of the channel and of the subscriptions it holds. The
  subscriptions of the program are named by numbers (\<open>Subs\<close> below). A dispatch calls
  a receiver at most once, so in one dispatch every receiver is such a sequence. A receiver that
  calls \<^verbatim>\<open>Send\<close> is not listed: inside a dispatch \<^verbatim>\<open>State\<close> is never \<^verbatim>\<open>Waiting\<close>
  (lemma \<open>run_calls_not_Waiting\<close>), so that call returns at line 83.

  A function need not return: \<open>Throw\<close> is the point where it is left by an exception, its
  own or one of a callee that it does not catch. The calls listed after \<open>Throw\<close> are not
  made. An empty \<^verbatim>\<open>std::function\<close>, which \<^verbatim>\<open>Receive({})\<close> stores, throws
  \<^verbatim>\<open>std::bad_function_call\<close> as soon as it is called: it is the sequence \<open>[Throw]\<close>.
\<close>

datatype 'e Call =
    Mutate "'e \<Rightarrow> 'e"
  | CallInterrupt
  | CallPause nat
  | CallResume nat
  | CallRemove nat
  | CallReceive nat "'e Call list"
  | Throw

text \<open>\<^verbatim>\<open>ReceiverData_\<close> (lines 141-155); its member \<^verbatim>\<open>State\<close> is named \<open>RState\<close> here,
  since the channel has a \<^verbatim>\<open>State\<close> of its own.\<close>

record 'e ReceiverData =
  RState :: ReceiverState
  Index :: ReceiverIndex
  Function :: "'e Call list"

record 'e Event =
  State :: EventState
  NextReceiverIndex :: ReceiverIndex
  ReceiversContainer :: "'e ReceiverData list"

text \<open>\<^verbatim>\<open>Subscription_\<close> (lines 157-230) has the one member \<^verbatim>\<open>ReceiverIndex\<close>.\<close>

record Subscription =
  ReceiverIndex :: ReceiverIndex

text \<open>The initial values of the static members (lines 135-138) and the defaulted
  constructor of a subscription (lines 163, 229).\<close>

definition Event_init :: "'e Event" where
  "Event_init = \<lparr>State = Waiting, NextReceiverIndex = 1, ReceiversContainer = []\<rparr>"

definition Subscription_default :: Subscription where
  "Subscription_default = \<lparr>ReceiverIndex = 0\<rparr>"

subsection \<open>Members that do not dispatch\<close>

text \<open>\<^verbatim>\<open>Receive\<close> (lines 115-119): \<^verbatim>\<open>emplace_back(Active, NextReceiverIndex++, f)\<close>, then
  \<^verbatim>\<open>return { NextReceiverIndex - 1 }\<close>.\<close>

definition Receive :: "'e Call list \<Rightarrow> 'e Event \<Rightarrow> Subscription \<times> 'e Event" where
  "Receive InReceiver ch =
     (let ch' = ch\<lparr>ReceiversContainer := ReceiversContainer ch @
                    [\<lparr>RState = Active, Index = NextReceiverIndex ch, Function = InReceiver\<rparr>],
                  NextReceiverIndex := NextReceiverIndex ch + 1\<rparr>
      in (\<lparr>ReceiverIndex = NextReceiverIndex ch' - 1\<rparr>, ch'))"

text \<open>\<^verbatim>\<open>Interrupt\<close> (lines 121-132).\<close>

definition Interrupt :: "'e Event \<Rightarrow> 'e Event" where
  "Interrupt ch = (if State ch \<noteq> Sending then ch else ch\<lparr>State := Interrupted\<rparr>)"

text \<open>\<^verbatim>\<open>IsValid\<close> (lines 165-168).\<close>

definition IsValid :: "Subscription \<Rightarrow> bool" where
  "IsValid h = (ReceiverIndex h \<noteq> 0)"

text \<open>\<^verbatim>\<open>ForThis\<close> (lines 216-226): the action runs on the first receiver whose \<^verbatim>\<open>Index\<close>
  is the subscription's, and the loop is left.\<close>

fun ForThis :: "Subscription \<Rightarrow> ('e ReceiverData \<Rightarrow> 'e ReceiverData) \<Rightarrow>
    'e ReceiverData list \<Rightarrow> 'e ReceiverData list" where
  "ForThis h InAction [] = []"
| "ForThis h InAction (Receiver # rest) =
     (if Index Receiver = ReceiverIndex h then InAction Receiver # rest
      else Receiver # ForThis h InAction rest)"

text \<open>\<^verbatim>\<open>Pause\<close> and \<^verbatim>\<open>Resume\<close> (lines 170-190): after the assertion, which has no effect, the
  state of the receiver is assigned whatever it was.\<close>

definition Pause :: "Subscription \<Rightarrow> 'e Event \<Rightarrow> 'e Event" where
  "Pause h ch =
     ch\<lparr>ReceiversContainer := ForThis h (\<lambda>InReceiver. InReceiver\<lparr>RState := Paused\<rparr>)
                                (ReceiversContainer ch)\<rparr>"

definition Resume :: "Subscription \<Rightarrow> 'e Event \<Rightarrow> 'e Event" where
  "Resume h ch =
     ch\<lparr>ReceiversContainer := ForThis h (\<lambda>InReceiver. InReceiver\<lparr>RState := Active\<rparr>)
                                (ReceiversContainer ch)\<rparr>"

text \<open>\<^verbatim>\<open>std::find_if\<close> as the position of the first element that satisfies the predicate,
  the length of the list (the position of \<^verbatim>\<open>End\<close>) when there is none; \<^verbatim>\<open>erase\<close> of the
  element at a position.\<close>

fun find_if :: "('a \<Rightarrow> bool) \<Rightarrow> 'a list \<Rightarrow> nat" where
  "find_if P [] = 0"
| "find_if P (x # xs) = (if P x then 0 else Suc (find_if P xs))"

definition erase :: "nat \<Rightarrow> 'a list \<Rightarrow> 'a list" where
  "erase i xs = take i xs @ drop (Suc i) xs"

text \<open>\<^verbatim>\<open>Remove\<close> (lines 192-210).\<close>

definition Remove :: "Subscription \<Rightarrow> 'e Event \<Rightarrow> Subscription \<times> 'e Event" where
  "Remove h ch =
     (let End = length (ReceiversContainer ch);
          Iterator = find_if (\<lambda>InReceiver. Index InReceiver = ReceiverIndex h)
                       (ReceiversContainer ch)
      in if Iterator \<noteq> End
         then (h\<lparr>ReceiverIndex := 0\<rparr>,
               ch\<lparr>ReceiversContainer := erase Iterator (ReceiversContainer ch)\<rparr>)
         else (h, ch))"

subsection \<open>The program state around the channel\<close>

text \<open>
  \<open>Chan\<close> is the channel, \<open>Subs\<close> the subscription objects of the program by number
  (an object never assigned is default-constructed), \<open>InEvent\<close> the event object that
  \<^verbatim>\<open>Send\<close> was given and hands to every receiver by reference. Two fields record what the
  C++ program does not store:
  \<^item> \<open>Invoked\<close> lists the calls \<^verbatim>\<open>Receiver.Function(InEvent)\<close> of line 102 in the order
    they are made: the position of the receiver in the container, its \<^verbatim>\<open>Index\<close> and the
    value of the event at the call;
  \<^item> \<open>EndValid\<close> says that the iterators the range-based \<^verbatim>\<open>for\<close> of \<^verbatim>\<open>Send\<close> holds are
    still valid. \<^verbatim>\<open>std::vector::erase\<close> and \<^verbatim>\<open>emplace_back\<close> invalidate the past-the-end
    iterator, so after either of them the loop's \<^verbatim>\<open>__begin != __end\<close> is undefined.
\<close>

record 'e World =
  Chan :: "'e Event"
  Subs :: "nat \<Rightarrow> Subscription"
  InEvent :: 'e
  Invoked :: "(nat \<times> ReceiverIndex \<times> 'e) list"
  EndValid :: bool

definition World_init :: "'e \<Rightarrow> 'e World" where
  "World_init e =
     \<lparr>Chan = Event_init, Subs = (\<lambda>_. Subscription_default), InEvent = e, Invoked = [],
      EndValid = True\<rparr>"

text \<open>One call made by a receiver, or by the program between two dispatches. \<^verbatim>\<open>Remove\<close>
  has called \<^verbatim>\<open>erase\<close> exactly when it leaves the container shorter. \<open>Throw\<close> is not a call
  and changes nothing by itself; what it ends is written where it ends it (\<open>run_calls\<close>,
  \<open>SendLoop\<close>, \<open>run_op\<close>).\<close>

fun act :: "'e Call \<Rightarrow> 'e World \<Rightarrow> 'e World" where
  "act (Mutate g) w = w\<lparr>InEvent := g (InEvent w)\<rparr>"
| "act CallInterrupt w = w\<lparr>Chan := Interrupt (Chan w)\<rparr>"
| "act (CallPause v) w = w\<lparr>Chan := Pause (Subs w v) (Chan w)\<rparr>"
| "act (CallResume v) w = w\<lparr>Chan := Resume (Subs w v) (Chan w)\<rparr>"
| "act (CallRemove v) w =
     (let (h, ch) = Remove (Subs w v) (Chan w)
      in w\<lparr>Chan := ch, Subs := (Subs w)(v := h),
           EndValid := EndValid w \<and>
             length (ReceiversContainer ch) = length (ReceiversContainer (Chan w))\<rparr>)"
| "act (CallReceive v InReceiver) w =
     (let (h, ch) = Receive InReceiver (Chan w)
      in w\<lparr>Chan := ch, Subs := (Subs w)(v := h), EndValid := False\<rparr>)"
| "act Throw w = w"

text \<open>The body of a receiver function: its calls in order, up to the point where it
  returns or is left by an exception.\<close>

definition run_calls :: "'e Call list \<Rightarrow> 'e World \<Rightarrow> 'e World" where
  "run_calls cs w = fold act (takeWhile (\<lambda>c. c \<noteq> Throw) cs) w"

subsection \<open>Send\<close>

text \<open>How a dispatch ends when it does not return. It has no defined result when the loop
  uses an invalidated iterator or reads an element that the container does not hold. It
  is left by an exception when a receiver is: \<^verbatim>\<open>Send\<close> has no handler and no object whose
  destructor would run, so the exception of line 102 leaves \<^verbatim>\<open>Send\<close> at once, with the
  program state as it is at that point (\<open>Thrown\<close> holds it).\<close>

datatype 'e abort = InvalidatedIterator | PastTheEnd | Thrown "'e World"

text \<open>
  The range-based \<^verbatim>\<open>for\<close> of lines 88-103, with \<^verbatim>\<open>__begin\<close> at position \<open>i\<close> and \<^verbatim>\<open>__end\<close>
  at position \<open>n\<close>. \<^verbatim>\<open>__begin != __end\<close> is \<open>i < n\<close>, since \<open>i\<close> starts at 0 and grows by one.
  The element under \<^verbatim>\<open>__begin\<close> is first read at line 96, after the test of line 90.
  Line 102 calls the function of the receiver: the call is recorded, the function runs, and
  either it returns and the loop goes on, or it is left by an exception and so is the loop.
\<close>

function SendLoop :: "nat \<Rightarrow> nat \<Rightarrow> 'e World \<Rightarrow> 'e abort + 'e World" where
  "SendLoop i n w =
     (if \<not> EndValid w then Inl InvalidatedIterator
      else if \<not> i < n then Inr w
      else if State (Chan w) \<noteq> Sending then Inr w
      else if length (ReceiversContainer (Chan w)) \<le> i then Inl PastTheEnd
      else let Receiver = ReceiversContainer (Chan w) ! i in
        if RState Receiver \<noteq> Active then SendLoop (Suc i) n w
        else if Throw \<in> set (Function Receiver)
        then Inl (Thrown (run_calls (Function Receiver)
                            (w\<lparr>Invoked := Invoked w @ [(i, Index Receiver, InEvent w)]\<rparr>)))
        else SendLoop (Suc i) n
               (run_calls (Function Receiver)
                  (w\<lparr>Invoked := Invoked w @ [(i, Index Receiver, InEvent w)]\<rparr>)))"
  by pat_completeness auto
termination
  by (relation "measure (\<lambda>(i, n, w). n - i)") auto

declare SendLoop.simps [simp del]

text \<open>The world in which the loop of \<^verbatim>\<open>Send\<close> starts (line 86, and the fresh iterators of
  line 88).\<close>

definition Send_start :: "'e \<Rightarrow> 'e World \<Rightarrow> 'e World" where
  "Send_start e w = w\<lparr>Chan := (Chan w)\<lparr>State := Sending\<rparr>, InEvent := e, EndValid := True\<rparr>"

text \<open>\<^verbatim>\<open>Send\<close> (lines 75-106). Line 105 is reached when the loop is left at its end or at
  the \<^verbatim>\<open>break\<close>, not when an exception leaves it.\<close>

definition Send :: "'e \<Rightarrow> 'e World \<Rightarrow> 'e abort + 'e World" where
  "Send e w =
     (if State (Chan w) \<noteq> Waiting then Inr w
      else case SendLoop 0 (length (ReceiversContainer (Chan w))) (Send_start e w) of
             Inl f \<Rightarrow> Inl f
           | Inr w' \<Rightarrow> Inr (w'\<lparr>Chan := (Chan w')\<lparr>State := Waiting\<rparr>\<rparr>))"

section \<open>Vocabulary of the statements\<close>

text \<open>The calls that one \<^verbatim>\<open>Send\<close> adds to the record of calls: \<open>w\<close> is the world before
  it and \<open>w'\<close> the world it returns.\<close>

definition new_calls :: "'e World \<Rightarrow> 'e World \<Rightarrow> (nat \<times> ReceiverIndex \<times> 'e) list" where
  "new_calls w w' = drop (length (Invoked w)) (Invoked w')"

text \<open>Line 102 for the receiver at position \<open>k\<close>: the call is recorded and the function
  runs.\<close>

definition call_at :: "nat \<Rightarrow> 'e World \<Rightarrow> 'e World" where
  "call_at k w =
     run_calls (Function (ReceiversContainer (Chan w) ! k))
       (w\<lparr>Invoked := Invoked w @ [(k, Index (ReceiversContainer (Chan w) ! k), InEvent w)]\<rparr>)"

text \<open>What a receiver function writes to the event it is given, until it returns or is
  left by an exception.\<close>

fun written :: "'e Call list \<Rightarrow> 'e \<Rightarrow> 'e" where
  "written [] e = e"
| "written (Mutate g # cs) e = written cs (g e)"
| "written (Throw # cs) e = e"
| "written (c # cs) e = written cs e"

text \<open>Two worlds with the same receivers in the same places (their \<^verbatim>\<open>State\<close> apart), the
  same counter and the same subscriptions.\<close>

definition same_structure :: "'e World \<Rightarrow> 'e World \<Rightarrow> bool" where
  "same_structure w w' \<longleftrightarrow>
     map Index (ReceiversContainer (Chan w')) = map Index (ReceiversContainer (Chan w)) \<and>
     map Function (ReceiversContainer (Chan w')) = map Function (ReceiversContainer (Chan w)) \<and>
     NextReceiverIndex (Chan w') = NextReceiverIndex (Chan w) \<and>
     Subs w' = Subs w"

text \<open>What the loop from position \<open>i\<close> to position \<open>n\<close> adds to the record of calls:
  positions in that range, in increasing order, each with the \<^verbatim>\<open>Index\<close> found there.\<close>

definition loop_log :: "nat \<Rightarrow> nat \<Rightarrow> 'e World \<Rightarrow> (nat \<times> ReceiverIndex \<times> 'e) list \<Rightarrow> bool" where
  "loop_log i n w L \<longleftrightarrow>
     sorted_wrt (<) (map fst L) \<and>
     (\<forall>x \<in> set L. i \<le> fst x \<and> fst x < n \<and> fst x < length (ReceiversContainer (Chan w)) \<and>
        fst (snd x) = Index (ReceiversContainer (Chan w) ! fst x))"

text \<open>The calls that reach \<^verbatim>\<open>erase\<close> or \<^verbatim>\<open>emplace_back\<close>, and a world none of whose
  receivers makes one.\<close>

fun structural :: "'e Call \<Rightarrow> bool" where
  "structural (CallRemove v) = True"
| "structural (CallReceive v f) = True"
| "structural c = False"

definition no_structural :: "'e World \<Rightarrow> bool" where
  "no_structural w \<longleftrightarrow>
     (\<forall>cs \<in> set (map Function (ReceiversContainer (Chan w))). \<forall>c \<in> set cs. \<not> structural c)"

text \<open>A world none of whose receivers leaves by an exception.\<close>

definition no_throw :: "'e World \<Rightarrow> bool" where
  "no_throw w \<longleftrightarrow> (\<forall>cs \<in> set (map Function (ReceiversContainer (Chan w))). Throw \<notin> set cs)"

text \<open>The subscription a call pauses or resumes, and the state it assigns; a receiver
  function \<open>cs\<close> assigns \<open>st\<close> to the receiver of index \<open>i\<close> when one of its calls does so
  through a subscription whose \<^verbatim>\<open>ReceiverIndex\<close> is \<open>i\<close>.\<close>

fun target :: "'e Call \<Rightarrow> (nat \<times> ReceiverState) option" where
  "target (CallPause v) = Some (v, Paused)"
| "target (CallResume v) = Some (v, Active)"
| "target c = None"

definition assigns ::
    "(nat \<Rightarrow> Subscription) \<Rightarrow> ReceiverIndex \<Rightarrow> ReceiverState \<Rightarrow> 'e Call list \<Rightarrow> bool" where
  "assigns subs i st cs \<longleftrightarrow>
     (\<exists>c \<in> set cs. \<exists>v. target c = Some (v, st) \<and> ReceiverIndex (subs v) = i)"

text \<open>A program around the channel, as \<^verbatim>\<open>main\<close> is (lines 266-329): a sequence of
  dispatches and of calls made outside any dispatch. \<^verbatim>\<open>main\<close> has no handler, so the
  program stops at the first dispatch that does not return, be it that it has no defined
  result or that an exception leaves it, and at an exception thrown outside a dispatch.\<close>

datatype 'e Op = OpSend 'e | OpCall "'e Call"

fun run_op :: "'e Op \<Rightarrow> 'e World \<Rightarrow> 'e abort + 'e World" where
  "run_op (OpSend e) w = Send e w"
| "run_op (OpCall c) w = (if c = Throw then Inl (Thrown w) else Inr (act c w))"

fun run :: "'e Op list \<Rightarrow> 'e World \<Rightarrow> 'e abort + 'e World" where
  "run [] w = Inr w"
| "run (x # xs) w = (case run_op x w of Inl f \<Rightarrow> Inl f | Inr w' \<Rightarrow> run xs w')"

text \<open>The number of \<^verbatim>\<open>Receive\<close> calls of a program.\<close>

fun is_Receive :: "'e Op \<Rightarrow> bool" where
  "is_Receive (OpCall (CallReceive v f)) = True"
| "is_Receive x = False"

definition receives :: "'e Op list \<Rightarrow> nat" where
  "receives ops = length (filter is_Receive ops)"

text \<open>The channel as \<^verbatim>\<open>Receive\<close> keeps it while the counter has not wrapped around: the
  counter is not 0, every \<^verbatim>\<open>Index\<close> in the container is neither 0 nor reached by the
  counter, and the indices grow along the container (so no two are equal).\<close>

definition Event_wf :: "'e Event \<Rightarrow> bool" where
  "Event_wf ch \<longleftrightarrow>
     NextReceiverIndex ch \<noteq> 0 \<and>
     (\<forall>i \<in> set (map Index (ReceiversContainer ch)). i \<noteq> 0 \<and> i < NextReceiverIndex ch) \<and>
     sorted_wrt (<) (map Index (ReceiversContainer ch))"

subsection \<open>Worlds for the examples\<close>

text \<open>Three receivers; the first writes the event, the second is paused.\<close>

definition three_receivers :: "nat World" where
  "three_receivers =
     \<lparr>Chan = \<lparr>State = Waiting, NextReceiverIndex = 4,
              ReceiversContainer =
                [\<lparr>RState = Active, Index = 1, Function = [Mutate Suc]\<rparr>,
                 \<lparr>RState = Paused, Index = 2, Function = [Mutate Suc]\<rparr>,
                 \<lparr>RState = Active, Index = 3, Function = []\<rparr>]\<rparr>,
      Subs = (\<lambda>_. Subscription_default), InEvent = 0, Invoked = [], EndValid = True\<rparr>"

text \<open>Two receivers; the first writes the event and interrupts.\<close>

definition interrupting :: "nat World" where
  "interrupting =
     \<lparr>Chan = \<lparr>State = Waiting, NextReceiverIndex = 3,
              ReceiversContainer =
                [\<lparr>RState = Active, Index = 1, Function = [Mutate Suc, CallInterrupt]\<rparr>,
                 \<lparr>RState = Active, Index = 2, Function = []\<rparr>]\<rparr>,
      Subs = (\<lambda>_. Subscription_default), InEvent = 0, Invoked = [], EndValid = True\<rparr>"

text \<open>Two receivers, the first with the function given, and the subscription of the
  second, through which the first may remove, pause or resume it.\<close>

definition first_does :: "nat Call list \<Rightarrow> nat World" where
  "first_does cs =
     \<lparr>Chan = \<lparr>State = Waiting, NextReceiverIndex = 3,
              ReceiversContainer =
                [\<lparr>RState = Active, Index = 1, Function = cs\<rparr>,
                 \<lparr>RState = Active, Index = 2, Function = []\<rparr>]\<rparr>,
      Subs = (\<lambda>_. \<lparr>ReceiverIndex = 2\<rparr>), InEvent = 0, Invoked = [], EndValid = True\<rparr>"

text \<open>A program that registers two receivers, removes the second and dispatches.\<close>

definition two_registrations :: "nat Op list" where
  "two_registrations =
     [OpCall (CallReceive 0 []), OpCall (CallReceive 1 []), OpCall (CallRemove 1), OpSend 5]"

section \<open>Lemmas\<close>

subsection \<open>Calls and the loop\<close>

lemma run_calls_Nil [simp]: "run_calls [] w = w"
  by (simp add: run_calls_def)

lemma run_calls_Cons [simp]:
  "run_calls (c # cs) w = (if c = Throw then w else run_calls cs (act c w))"
  by (simp add: run_calls_def)

lemma run_calls_fold: "Throw \<notin> set cs \<Longrightarrow> run_calls cs w = fold act cs w"
  by (induction cs arbitrary: w) auto

lemma act_not_Waiting: "State (Chan w) \<noteq> Waiting \<Longrightarrow> State (Chan (act c w)) \<noteq> Waiting"
  by (cases c) (auto simp: Interrupt_def Pause_def Resume_def Remove_def Receive_def Let_def)

lemma run_calls_not_Waiting:
  "State (Chan w) \<noteq> Waiting \<Longrightarrow> State (Chan (run_calls cs w)) \<noteq> Waiting"
  by (induction cs arbitrary: w) (auto simp: act_not_Waiting)

lemma find_if_le: "find_if P xs \<le> length xs"
  by (induction xs) auto

lemma length_erase: "i < length xs \<Longrightarrow> length (erase i xs) = length xs - 1"
  by (simp add: erase_def)

lemma ForThis_Index [simp]:
  "(\<And>r. Index (a r) = Index r) \<Longrightarrow> map Index (ForThis h a rs) = map Index rs"
  by (induction rs) auto

lemma ForThis_Function [simp]:
  "(\<And>r. Function (a r) = Function r) \<Longrightarrow> map Function (ForThis h a rs) = map Function rs"
  by (induction rs) auto

lemma length_ForThis [simp]: "length (ForThis h a rs) = length rs"
  by (induction rs) auto

lemma same_structure_refl [simp]: "same_structure w w"
  by (simp add: same_structure_def)

lemma same_structure_trans:
  "same_structure w w' \<Longrightarrow> same_structure w' w'' \<Longrightarrow> same_structure w w''"
  by (simp add: same_structure_def)

lemma Remove_cases:
  "Remove h ch = (h, ch) \<or>
   length (ReceiversContainer (snd (Remove h ch))) < length (ReceiversContainer ch)"
proof -
  let ?i = "find_if (\<lambda>r. Index r = ReceiverIndex h) (ReceiversContainer ch)"
  have "?i \<le> length (ReceiversContainer ch)" by (rule find_if_le)
  then show ?thesis
    by (auto simp: Remove_def Let_def length_erase)
qed

lemma act_EndValid:
  "EndValid (act c w) \<Longrightarrow> EndValid w \<and> same_structure w (act c w)"
proof (cases c)
  case (CallRemove v)
  assume ev: "EndValid (act c w)"
  from Remove_cases [of "Subs w v" "Chan w"] show ?thesis
  proof
    assume "Remove (Subs w v) (Chan w) = (Subs w v, Chan w)"
    with ev CallRemove show ?thesis by (simp add: same_structure_def Let_def)
  next
    assume "length (ReceiversContainer (snd (Remove (Subs w v) (Chan w))))
              < length (ReceiversContainer (Chan w))"
    with ev CallRemove show ?thesis by (simp add: split_def Let_def)
  qed
qed (auto simp: same_structure_def Interrupt_def Pause_def Resume_def split_def Let_def)

lemma run_calls_EndValid:
  "EndValid (run_calls cs w) \<Longrightarrow> EndValid w \<and> same_structure w (run_calls cs w)"
proof (induction cs arbitrary: w)
  case Nil
  then show ?case by simp
next
  case (Cons c cs)
  show ?case
  proof (cases "c = Throw")
    case True
    with Cons.prems show ?thesis by simp
  next
    case False
    with Cons.prems have "EndValid (run_calls cs (act c w))" by simp
    from Cons.IH [OF this] act_EndValid [of c w] False show ?thesis
      by (auto intro: same_structure_trans)
  qed
qed

lemma act_Invoked [simp]: "Invoked (act c w) = Invoked w"
  by (cases c) (auto simp: split_def Let_def)

lemma run_calls_Invoked [simp]: "Invoked (run_calls cs w) = Invoked w"
  by (induction cs arbitrary: w) auto

lemma SendLoop_break:
  "EndValid w \<Longrightarrow> State (Chan w) \<noteq> Sending \<Longrightarrow> SendLoop k n w = Inr w"
  by (simp add: SendLoop.simps [of k n w])

lemma SendLoop_split:
  "i \<le> k \<Longrightarrow> k \<le> n \<Longrightarrow>
   SendLoop i n w = (case SendLoop i k w of Inl f \<Rightarrow> Inl f | Inr w' \<Rightarrow> SendLoop k n w')"
proof (induction i k w rule: SendLoop.induct)
  case (1 i k w)
  show ?case
  proof (cases "i < k")
    case False
    with "1.prems" have "i = k" by simp
    then show ?thesis
      by (simp add: SendLoop.simps [of k k w] SendLoop.simps [of k n w])
  next
    case True
    with "1.prems" have "i < n" "Suc i \<le> k" by simp_all
    with True "1.IH" "1.prems" show ?thesis
      by (simp add: SendLoop.simps [of i k w] SendLoop.simps [of i n w] Let_def SendLoop_break)
  qed
qed

lemma SendLoop_Inr:
  "SendLoop i n w = Inr w' \<Longrightarrow>
   EndValid w' \<and> same_structure w w' \<and> (\<exists>L. Invoked w' = Invoked w @ L \<and> loop_log i n w L)"
proof (induction i n w rule: SendLoop.induct)
  case (1 i n w)
  note unf = SendLoop.simps [of i n w]
  from "1.prems" unf have ev: "EndValid w" by (auto split: if_splits)
  show ?case
  proof (cases "i < n \<and> State (Chan w) = Sending")
    case False
    with "1.prems" ev unf have "w' = w" by (auto split: if_splits)
    with ev show ?thesis by (simp add: loop_log_def)
  next
    case True
    with "1.prems" ev unf have len: "i < length (ReceiversContainer (Chan w))"
      by (auto split: if_splits)
    let ?r = "ReceiversContainer (Chan w) ! i"
    show ?thesis
    proof (cases "RState ?r = Active")
      case False
      with "1.prems" ev unf True len have "SendLoop (Suc i) n w = Inr w'"
        by (simp add: Let_def)
      from "1.IH"(1) [OF _ _ _ _ refl _ this] ev True len False
      obtain L where "EndValid w'" "same_structure w w'" "Invoked w' = Invoked w @ L"
        "loop_log (Suc i) n w L" by auto
      then show ?thesis by (auto simp: loop_log_def)
    next
      case act: True
      let ?w1 = "run_calls (Function ?r) (w\<lparr>Invoked := Invoked w @ [(i, Index ?r, InEvent w)]\<rparr>)"
      from "1.prems" ev unf True len act have nt: "Throw \<notin> set (Function ?r)"
        by (auto simp: Let_def split: if_splits)
      with "1.prems" ev unf True len act have run: "SendLoop (Suc i) n ?w1 = Inr w'"
        by (simp add: Let_def)
      from "1.IH"(2) [OF _ _ _ _ refl _ _ this] ev True len act nt
      obtain L where w': "EndValid w'" "same_structure ?w1 w'" "Invoked w' = Invoked ?w1 @ L"
        "loop_log (Suc i) n ?w1 L" by auto
      from run have "EndValid ?w1" by (auto simp: SendLoop.simps [of "Suc i" n ?w1] split: if_splits)
      from run_calls_EndValid [OF this]
      have s1: "same_structure w ?w1" by (simp add: same_structure_def)
      with w' have s: "same_structure w w'" by (auto intro: same_structure_trans)
      from s1 have idx: "map Index (ReceiversContainer (Chan ?w1)) = map Index (ReceiversContainer (Chan w))"
        by (simp add: same_structure_def)
      then have leq: "length (ReceiversContainer (Chan ?w1)) = length (ReceiversContainer (Chan w))"
        by (rule map_eq_imp_length_eq)
      have nth: "\<And>p. p < length (ReceiversContainer (Chan w)) \<Longrightarrow>
          Index (ReceiversContainer (Chan ?w1) ! p) = Index (ReceiversContainer (Chan w) ! p)"
        using idx leq by (metis nth_map)
      have "loop_log i n w ((i, Index ?r, InEvent w) # L)"
        using w'(4) True len leq nth by (auto simp: loop_log_def)
      moreover have "Invoked w' = Invoked w @ (i, Index ?r, InEvent w) # L"
        using w'(3) by simp
      ultimately show ?thesis using w'(1) s by blast
    qed
  qed
qed

lemma SendLoop_same: "SendLoop k k w = (if EndValid w then Inr w else Inl InvalidatedIterator)"
  by (simp add: SendLoop.simps [of k k w])

lemma SendLoop_step:
  assumes "SendLoop k (Suc k) w = Inr w1"
  shows "if State (Chan w) = Sending \<and> RState (ReceiversContainer (Chan w) ! k) = Active
         then k < length (ReceiversContainer (Chan w)) \<and> w1 = call_at k w \<and> EndValid w1 \<and>
              Throw \<notin> set (Function (ReceiversContainer (Chan w) ! k))
         else w1 = w"
  using assms
  by (auto simp: SendLoop.simps [of k "Suc k" w] SendLoop_same call_at_def Let_def
           split: if_splits)

lemma Send_Inr:
  assumes "State (Chan w) = Waiting" and "Send e w = Inr w'"
  obtains w0 where "SendLoop 0 (length (ReceiversContainer (Chan w))) (Send_start e w) = Inr w0"
    and "w' = w0\<lparr>Chan := (Chan w0)\<lparr>State := Waiting\<rparr>\<rparr>"
  using assms by (auto simp: Send_def split: sum.splits)

lemma Send_start_simps [simp]:
  "Invoked (Send_start e w) = Invoked w"
  "ReceiversContainer (Chan (Send_start e w)) = ReceiversContainer (Chan w)"
  "NextReceiverIndex (Chan (Send_start e w)) = NextReceiverIndex (Chan w)"
  "State (Chan (Send_start e w)) = Sending"
  "Subs (Send_start e w) = Subs w"
  "InEvent (Send_start e w) = e"
  "EndValid (Send_start e w)"
  by (simp_all add: Send_start_def)

lemma Send_cut:
  assumes "State (Chan w) = Waiting" and "Send e w = Inr w'"
    and "k < length (ReceiversContainer (Chan w))"
  obtains wk w1 w0 L1 L3 where
    "SendLoop 0 k (Send_start e w) = Inr wk"
    "SendLoop k (Suc k) wk = Inr w1"
    "SendLoop (Suc k) (length (ReceiversContainer (Chan w))) w1 = Inr w0"
    "w' = w0\<lparr>Chan := (Chan w0)\<lparr>State := Waiting\<rparr>\<rparr>"
    "Invoked wk = Invoked w @ L1" "\<forall>x \<in> set L1. fst x < k"
    "Invoked w0 = Invoked w1 @ L3" "\<forall>x \<in> set L3. k < fst x"
    "same_structure (Send_start e w) wk" "EndValid wk"
proof -
  let ?n = "length (ReceiversContainer (Chan w))" and ?s = "Send_start e w"
  from assms(1,2) obtain w0 where w0: "SendLoop 0 ?n ?s = Inr w0"
    "w' = w0\<lparr>Chan := (Chan w0)\<lparr>State := Waiting\<rparr>\<rparr>" by (rule Send_Inr)
  from assms(3) have "0 \<le> k" "k \<le> ?n" by simp_all
  from SendLoop_split [OF this, of ?s] w0(1)
  obtain wk where wk: "SendLoop 0 k ?s = Inr wk" "SendLoop k ?n wk = Inr w0"
    by (auto split: sum.splits)
  from assms(3) have "k \<le> Suc k" "Suc k \<le> ?n" by simp_all
  from SendLoop_split [OF this, of wk] wk(2)
  obtain w1 where w1: "SendLoop k (Suc k) wk = Inr w1" "SendLoop (Suc k) ?n w1 = Inr w0"
    by (auto split: sum.splits)
  from SendLoop_Inr [OF wk(1)] obtain L1 where L1: "Invoked wk = Invoked w @ L1"
    "loop_log 0 k ?s L1" "same_structure ?s wk" "EndValid wk" by auto
  from SendLoop_Inr [OF w1(2)] obtain L3 where L3: "Invoked w0 = Invoked w1 @ L3"
    "loop_log (Suc k) ?n w1 L3" by auto
  from L1(2) have "\<forall>x \<in> set L1. fst x < k" by (simp add: loop_log_def)
  moreover from L3(2) have "\<forall>x \<in> set L3. k < fst x" by (auto simp: loop_log_def)
  ultimately show ?thesis using that wk(1) w1 w0(2) L1 L3(1) by blast
qed

lemma call_at_Invoked [simp]:
  "Invoked (call_at k w) =
     Invoked w @ [(k, Index (ReceiversContainer (Chan w) ! k), InEvent w)]"
  by (simp add: call_at_def)

lemma Send_calls_at:
  assumes "State (Chan w) = Waiting" and "Send e w = Inr w'"
    and "k < length (ReceiversContainer (Chan w))"
  obtains wk L1 L3 where
    "SendLoop 0 k (Send_start e w) = Inr wk"
    "\<forall>x \<in> set L1. fst x < k" "\<forall>x \<in> set L3. k < fst x"
    "new_calls w w' = L1 @
       (if State (Chan wk) = Sending \<and> RState (ReceiversContainer (Chan wk) ! k) = Active
        then [(k, Index (ReceiversContainer (Chan w) ! k), InEvent wk)] else []) @ L3"
proof -
  from assms obtain wk w1 w0 L1 L3 where c:
    "SendLoop 0 k (Send_start e w) = Inr wk"
    "SendLoop k (Suc k) wk = Inr w1"
    "w' = w0\<lparr>Chan := (Chan w0)\<lparr>State := Waiting\<rparr>\<rparr>"
    "Invoked wk = Invoked w @ L1" "\<forall>x \<in> set L1. fst x < k"
    "Invoked w0 = Invoked w1 @ L3" "\<forall>x \<in> set L3. k < fst x"
    "same_structure (Send_start e w) wk"
    by (rule Send_cut)
  let ?b = "State (Chan wk) = Sending \<and> RState (ReceiversContainer (Chan wk) ! k) = Active"
  from c(8) have "map Index (ReceiversContainer (Chan wk)) = map Index (ReceiversContainer (Chan w))"
    by (simp add: same_structure_def)
  with assms(3) have idx: "Index (ReceiversContainer (Chan wk) ! k) = Index (ReceiversContainer (Chan w) ! k)"
    by (metis length_map nth_map)
  from SendLoop_step [OF c(2)] idx
  have "Invoked w1 = Invoked wk @
      (if ?b then [(k, Index (ReceiversContainer (Chan w) ! k), InEvent wk)] else [])"
    by (auto split: if_splits)
  with c(3,4,6) have "new_calls w w' = L1 @
      (if ?b then [(k, Index (ReceiversContainer (Chan w) ! k), InEvent wk)] else []) @ L3"
    by (simp add: new_calls_def)
  with that c(1,5,7) show ?thesis by blast
qed

lemma Send_sorted:
  assumes "State (Chan w) = Waiting" and "Send e w = Inr w'"
  shows "sorted_wrt (<) (map fst (new_calls w w'))"
proof -
  from assms obtain w0 where w0:
    "SendLoop 0 (length (ReceiversContainer (Chan w))) (Send_start e w) = Inr w0"
    "w' = w0\<lparr>Chan := (Chan w0)\<lparr>State := Waiting\<rparr>\<rparr>" by (rule Send_Inr)
  from SendLoop_Inr [OF w0(1)] w0(2) show ?thesis
    by (auto simp: new_calls_def loop_log_def)
qed

lemma Send_calls_bound:
  assumes "State (Chan w) = Waiting" and "Send e w = Inr w'" and "x \<in> set (new_calls w w')"
  shows "fst x < length (ReceiversContainer (Chan w)) \<and>
         fst (snd x) = Index (ReceiversContainer (Chan w) ! fst x)"
proof -
  from assms(1,2) obtain w0 where w0:
    "SendLoop 0 (length (ReceiversContainer (Chan w))) (Send_start e w) = Inr w0"
    "w' = w0\<lparr>Chan := (Chan w0)\<lparr>State := Waiting\<rparr>\<rparr>" by (rule Send_Inr)
  from SendLoop_Inr [OF w0(1)] w0(2) assms(3) show ?thesis
    by (auto simp: new_calls_def loop_log_def)
qed

lemma act_State:
  "State (Chan (act c w)) =
     (if c = CallInterrupt \<and> State (Chan w) = Sending then Interrupted else State (Chan w))"
  by (cases c) (auto simp: Interrupt_def Pause_def Resume_def Remove_def Receive_def Let_def split_def)

lemma run_calls_InEvent: "InEvent (run_calls cs w) = written cs (InEvent w)"
proof (induction cs arbitrary: w)
  case Nil
  then show ?case by simp
next
  case (Cons c cs)
  then show ?case by (cases c) (simp_all add: split_def Let_def)
qed

lemma run_calls_Interrupted:
  "State (Chan w) = Interrupted \<Longrightarrow> State (Chan (run_calls cs w)) = Interrupted"
  by (induction cs arbitrary: w) (auto simp: act_State)

lemma run_calls_Interrupt:
  "State (Chan w) = Sending \<Longrightarrow> CallInterrupt \<in> set cs \<Longrightarrow> Throw \<notin> set cs \<Longrightarrow>
   State (Chan (run_calls cs w)) = Interrupted"
proof (induction cs arbitrary: w)
  case Nil
  then show ?case by simp
next
  case (Cons c cs)
  from Cons.prems(3) have nt: "c \<noteq> Throw" "Throw \<notin> set cs" by auto
  show ?case
  proof (cases "c = CallInterrupt")
    case True
    with Cons.prems(1) have "State (Chan (act c w)) = Interrupted" by (simp add: Interrupt_def)
    with nt show ?thesis by (simp add: run_calls_Interrupted)
  next
    case False
    with Cons.prems have "State (Chan (act c w)) = Sending" "CallInterrupt \<in> set cs"
      by (simp_all add: act_State)
    with nt show ?thesis by (simp add: Cons.IH)
  qed
qed

lemma run_calls_no_Interrupt:
  "CallInterrupt \<notin> set cs \<Longrightarrow> State (Chan (run_calls cs w)) = State (Chan w)"
  by (induction cs arbitrary: w) (auto simp: act_State)

lemma same_structure_Function:
  "same_structure w w' \<Longrightarrow> k < length (ReceiversContainer (Chan w)) \<Longrightarrow>
   Function (ReceiversContainer (Chan w') ! k) = Function (ReceiversContainer (Chan w) ! k)"
  unfolding same_structure_def by (metis length_map nth_map)

lemma same_structure_Index:
  "same_structure w w' \<Longrightarrow> k < length (ReceiversContainer (Chan w)) \<Longrightarrow>
   Index (ReceiversContainer (Chan w') ! k) = Index (ReceiversContainer (Chan w) ! k)"
  unfolding same_structure_def by (metis length_map nth_map)

lemma same_structure_length:
  "same_structure w w' \<Longrightarrow>
   length (ReceiversContainer (Chan w')) = length (ReceiversContainer (Chan w))"
  unfolding same_structure_def by (metis length_map)

lemma act_nonstructural:
  "\<not> structural c \<Longrightarrow> EndValid (act c w) = EndValid w"
  by (cases c) auto

lemma run_calls_nonstructural:
  "\<forall>c \<in> set cs. \<not> structural c \<Longrightarrow> EndValid (run_calls cs w) = EndValid w"
  by (induction cs arbitrary: w) (auto simp: act_nonstructural)

lemma no_structural_same:
  "same_structure w w' \<Longrightarrow> no_structural w \<Longrightarrow> no_structural w'"
  by (simp add: same_structure_def no_structural_def)

lemma no_throw_same:
  "same_structure w w' \<Longrightarrow> no_throw w \<Longrightarrow> no_throw w'"
  by (simp add: same_structure_def no_throw_def)

lemma SendLoop_total:
  "EndValid w \<Longrightarrow> n \<le> length (ReceiversContainer (Chan w)) \<Longrightarrow> no_structural w \<Longrightarrow>
   no_throw w \<Longrightarrow> \<exists>w'. SendLoop i n w = Inr w'"
proof (induction i n w rule: SendLoop.induct)
  case (1 i n w)
  note unf = SendLoop.simps [of i n w]
  show ?case
  proof (cases "i < n \<and> State (Chan w) = Sending")
    case False
    with "1.prems" unf show ?thesis by auto
  next
    case True
    with "1.prems" have len: "i < length (ReceiversContainer (Chan w))" by simp
    let ?r = "ReceiversContainer (Chan w) ! i"
    show ?thesis
    proof (cases "RState ?r = Active")
      case False
      from "1.IH"(1) [OF _ _ _ _ refl _ "1.prems"] "1.prems"(1) True len False
      have "\<exists>w'. SendLoop (Suc i) n w = Inr w'" by simp
      with "1.prems"(1) True len False unf show ?thesis by (simp add: Let_def)
    next
      case act: True
      let ?w1 = "call_at i w"
      from len have "Function ?r \<in> set (map Function (ReceiversContainer (Chan w)))" by simp
      with "1.prems"(3,4) have ns: "\<forall>c \<in> set (Function ?r). \<not> structural c"
        and nt: "Throw \<notin> set (Function ?r)"
        unfolding no_structural_def no_throw_def by blast+
      with "1.prems"(1) have ev: "EndValid ?w1"
        by (simp add: call_at_def run_calls_nonstructural)
      from run_calls_EndValid [OF ev [unfolded call_at_def]]
      have ss: "same_structure w ?w1" by (simp add: same_structure_def call_at_def)
      from same_structure_length [OF ss] "1.prems"(2)
      have l1: "n \<le> length (ReceiversContainer (Chan ?w1))" by simp
      from no_structural_same [OF ss "1.prems"(3)] have n1: "no_structural ?w1" .
      from no_throw_same [OF ss "1.prems"(4)] have t1: "no_throw ?w1" .
      from "1.IH"(2) [OF _ _ _ _ refl _ _ ev [unfolded call_at_def] l1 [unfolded call_at_def]
          n1 [unfolded call_at_def] t1 [unfolded call_at_def]] "1.prems"(1) True len act nt
      have "\<exists>w'. SendLoop (Suc i) n ?w1 = Inr w'" by (simp add: call_at_def)
      with "1.prems"(1) True len act nt unf show ?thesis by (simp add: Let_def call_at_def)
    qed
  qed
qed

lemma Send_total:
  assumes "no_structural w" and "no_throw w"
  shows "\<exists>w'. Send e w = Inr w'"
proof (cases "State (Chan w) = Waiting")
  case False
  then show ?thesis by (simp add: Send_def)
next
  case True
  have "no_structural (Send_start e w)" "no_throw (Send_start e w)"
    using assms by (simp_all add: no_structural_def no_throw_def)
  from SendLoop_total [of "Send_start e w" "length (ReceiversContainer (Chan w))" 0, OF _ _ this]
  obtain w' where "SendLoop 0 (length (ReceiversContainer (Chan w))) (Send_start e w) = Inr w'"
    by auto
  with True show ?thesis by (simp add: Send_def)
qed

lemma SendLoop_defined:
  "EndValid w \<Longrightarrow> n \<le> length (ReceiversContainer (Chan w)) \<Longrightarrow> no_structural w \<Longrightarrow>
   SendLoop i n w \<noteq> Inl InvalidatedIterator \<and> SendLoop i n w \<noteq> Inl PastTheEnd"
proof (induction i n w rule: SendLoop.induct)
  case (1 i n w)
  note unf = SendLoop.simps [of i n w]
  show ?case
  proof (cases "i < n \<and> State (Chan w) = Sending")
    case False
    with "1.prems" unf show ?thesis by auto
  next
    case True
    with "1.prems" have len: "i < length (ReceiversContainer (Chan w))" by simp
    let ?r = "ReceiversContainer (Chan w) ! i"
    show ?thesis
    proof (cases "RState ?r = Active")
      case False
      from "1.IH"(1) [OF _ _ _ _ refl _ "1.prems"] "1.prems"(1) True len False
      have "SendLoop (Suc i) n w \<noteq> Inl InvalidatedIterator \<and>
            SendLoop (Suc i) n w \<noteq> Inl PastTheEnd" by simp
      with "1.prems"(1) True len False unf show ?thesis by (simp add: Let_def)
    next
      case act: True
      let ?w1 = "call_at i w"
      show ?thesis
      proof (cases "Throw \<in> set (Function ?r)")
        case True
        with "1.prems"(1) \<open>i < n \<and> State (Chan w) = Sending\<close> len act unf show ?thesis
          by (simp add: Let_def)
      next
        case nt: False
        from len have "Function ?r \<in> set (map Function (ReceiversContainer (Chan w)))" by simp
        with "1.prems"(3) have ns: "\<forall>c \<in> set (Function ?r). \<not> structural c"
          unfolding no_structural_def by blast
        with "1.prems"(1) have ev: "EndValid ?w1"
          by (simp add: call_at_def run_calls_nonstructural)
        from run_calls_EndValid [OF ev [unfolded call_at_def]]
        have ss: "same_structure w ?w1" by (simp add: same_structure_def call_at_def)
        from same_structure_length [OF ss] "1.prems"(2)
        have l1: "n \<le> length (ReceiversContainer (Chan ?w1))" by simp
        from no_structural_same [OF ss "1.prems"(3)] have n1: "no_structural ?w1" .
        from "1.IH"(2) [OF _ _ _ _ refl _ _ ev [unfolded call_at_def] l1 [unfolded call_at_def]
            n1 [unfolded call_at_def]] "1.prems"(1) True len act nt
        have "SendLoop (Suc i) n ?w1 \<noteq> Inl InvalidatedIterator \<and>
              SendLoop (Suc i) n ?w1 \<noteq> Inl PastTheEnd" by (simp add: call_at_def)
        with "1.prems"(1) True len act nt unf show ?thesis by (simp add: Let_def call_at_def)
      qed
    qed
  qed
qed

lemma Send_defined:
  assumes "no_structural w"
  shows "Send e w \<noteq> Inl InvalidatedIterator \<and> Send e w \<noteq> Inl PastTheEnd"
proof (cases "State (Chan w) = Waiting")
  case False
  then show ?thesis by (simp add: Send_def)
next
  case True
  have "no_structural (Send_start e w)"
    using assms by (simp add: no_structural_def)
  from SendLoop_defined [of "Send_start e w" "length (ReceiversContainer (Chan w))" 0, OF _ _ this]
  have "SendLoop 0 (length (ReceiversContainer (Chan w))) (Send_start e w) \<noteq> Inl InvalidatedIterator \<and>
        SendLoop 0 (length (ReceiversContainer (Chan w))) (Send_start e w) \<noteq> Inl PastTheEnd"
    by simp
  with True show ?thesis by (auto simp: Send_def split: sum.splits)
qed

lemma ForThis_nth:
  "distinct (map Index rs) \<Longrightarrow> j < length rs \<Longrightarrow>
   ForThis h a rs ! j = (if Index (rs ! j) = ReceiverIndex h then a (rs ! j) else rs ! j)"
proof (induction rs arbitrary: j)
  case Nil
  then show ?case by simp
next
  case (Cons r rs)
  show ?case
  proof (cases j)
    case 0
    then show ?thesis by simp
  next
    case (Suc j')
    with Cons.prems have "j' < length rs" "distinct (map Index rs)" by simp_all
    then have "rs ! j' \<in> set rs" by simp
    then have "Index (rs ! j') \<in> Index ` set rs" by (rule imageI)
    moreover from Cons.prems(1) have "Index r \<notin> Index ` set rs" by simp
    ultimately have ne: "Index r = ReceiverIndex h \<Longrightarrow> Index (rs ! j') \<noteq> ReceiverIndex h"
      by metis
    show ?thesis
    proof (cases "Index r = ReceiverIndex h")
      case True
      with ne Suc show ?thesis by simp
    next
      case False
      with Cons.IH [OF \<open>distinct (map Index rs)\<close> \<open>j' < length rs\<close>] Suc show ?thesis
        by simp
    qed
  qed
qed

lemma act_RState:
  assumes "EndValid (act c w)" and "distinct (map Index (ReceiversContainer (Chan w)))"
    and "j < length (ReceiversContainer (Chan w))"
  shows "RState (ReceiversContainer (Chan (act c w)) ! j) =
     (case target c of
        Some (v, st) \<Rightarrow>
          if ReceiverIndex (Subs w v) = Index (ReceiversContainer (Chan w) ! j) then st
          else RState (ReceiversContainer (Chan w) ! j)
      | None \<Rightarrow> RState (ReceiversContainer (Chan w) ! j))"
proof (cases c)
  case (CallRemove v)
  from Remove_cases [of "Subs w v" "Chan w"] assms(1) CallRemove
  have "Remove (Subs w v) (Chan w) = (Subs w v, Chan w)"
    by (auto simp: Let_def split_def)
  with CallRemove show ?thesis by simp
next
  case (CallReceive v f)
  with assms(1) show ?thesis by (simp add: split_def Let_def)
qed (use assms in \<open>auto simp: Interrupt_def Pause_def Resume_def ForThis_nth\<close>)

lemma run_calls_keep:
  assumes "EndValid (run_calls cs w)" and "distinct (map Index (ReceiversContainer (Chan w)))"
    and "j < length (ReceiversContainer (Chan w))"
    and "\<forall>st'. st' \<noteq> st \<longrightarrow> \<not> assigns (Subs w) (Index (ReceiversContainer (Chan w) ! j)) st' cs"
    and "RState (ReceiversContainer (Chan w) ! j) = st \<or>
         assigns (Subs w) (Index (ReceiversContainer (Chan w) ! j)) st cs \<and> Throw \<notin> set cs"
  shows "RState (ReceiversContainer (Chan (run_calls cs w)) ! j) = st"
  using assms
proof (induction cs arbitrary: w)
  case Nil
  then show ?case by (simp add: assigns_def)
next
  case (Cons c cs)
  show ?case
  proof (cases "c = Throw")
    case True
    with Cons.prems(5) show ?thesis by auto
  next
    case nt: False
  let ?w1 = "act c w" and ?i = "Index (ReceiversContainer (Chan w) ! j)"
  from Cons.prems(1) nt have ev: "EndValid (run_calls cs ?w1)" by simp
  from run_calls_EndValid [OF ev] have ev1: "EndValid ?w1" by simp
  from act_EndValid [OF ev1] have ss: "same_structure w ?w1" by simp
  then have subs: "Subs ?w1 = Subs w"
    and ids: "map Index (ReceiversContainer (Chan ?w1)) = map Index (ReceiversContainer (Chan w))"
    by (simp_all add: same_structure_def)
  from ids Cons.prems(2) have d1: "distinct (map Index (ReceiversContainer (Chan ?w1)))" by simp
  from same_structure_length [OF ss] Cons.prems(3)
  have j1: "j < length (ReceiversContainer (Chan ?w1))" by simp
  from same_structure_Index [OF ss Cons.prems(3)]
  have i1: "Index (ReceiversContainer (Chan ?w1) ! j) = ?i" .
  from Cons.prems(4) have no: "\<forall>st'. st' \<noteq> st \<longrightarrow> \<not> assigns (Subs w) ?i st' cs"
    and noc: "\<forall>v st'. target c = Some (v, st') \<and> ReceiverIndex (Subs w v) = ?i \<longrightarrow> st' = st"
    by (auto simp: assigns_def)
  have "RState (ReceiversContainer (Chan ?w1) ! j) = st \<or>
        assigns (Subs w) ?i st cs \<and> Throw \<notin> set cs"
  proof (cases "assigns (Subs w) ?i st cs \<and> Throw \<notin> set cs")
    case True
    then show ?thesis ..
  next
    case False
    with Cons.prems(5) have
      "RState (ReceiversContainer (Chan w) ! j) = st \<or>
       (\<exists>v. target c = Some (v, st) \<and> ReceiverIndex (Subs w v) = ?i)"
      by (auto simp: assigns_def)
    with act_RState [OF ev1 Cons.prems(2,3)] noc show ?thesis
      by (auto split: option.splits)
  qed
  with Cons.IH [OF ev d1 j1] no subs i1 nt show ?thesis by simp
  qed
qed

lemma call_at_EndValid:
  "EndValid (call_at i w) \<Longrightarrow> EndValid w \<and> same_structure w (call_at i w)"
  using run_calls_EndValid [of "Function (ReceiversContainer (Chan w) ! i)"
      "w\<lparr>Invoked := Invoked w @ [(i, Index (ReceiversContainer (Chan w) ! i), InEvent w)]\<rparr>"]
  by (simp add: call_at_def same_structure_def)

lemma SendLoop_unfold:
  "SendLoop i n w = Inr w' \<Longrightarrow> i < n \<Longrightarrow> State (Chan w) = Sending \<Longrightarrow>
   i < length (ReceiversContainer (Chan w)) \<and> EndValid w \<and>
   SendLoop (Suc i) n
     (if RState (ReceiversContainer (Chan w) ! i) = Active then call_at i w else w) = Inr w'"
  by (auto simp: SendLoop.simps [of i n w] call_at_def Let_def split: if_splits)

lemma SendLoop_no_Throw:
  "SendLoop i n w = Inr w' \<Longrightarrow> i < n \<Longrightarrow> State (Chan w) = Sending \<Longrightarrow>
   RState (ReceiversContainer (Chan w) ! i) = Active \<Longrightarrow>
   Throw \<notin> set (Function (ReceiversContainer (Chan w) ! i))"
  by (auto simp: SendLoop.simps [of i n w] Let_def split: if_splits)

lemma SendLoop_Inr_EndValid: "SendLoop i n w = Inr w' \<Longrightarrow> EndValid w"
  by (auto simp: SendLoop.simps [of i n w] split: if_splits)

lemma SendLoop_stop:
  "SendLoop i n w = Inr w' \<Longrightarrow> \<not> (i < n \<and> State (Chan w) = Sending) \<Longrightarrow> w' = w"
  by (auto simp: SendLoop.simps [of i n w] split: if_splits)

lemma SendLoop_keep:
  assumes "SendLoop i n w = Inr w'"
    and "distinct (map Index (ReceiversContainer (Chan w)))"
    and "j < length (ReceiversContainer (Chan w))"
    and "RState (ReceiversContainer (Chan w) ! j) = st"
    and "\<forall>p st'. i \<le> p \<and> p < n \<and> p < length (ReceiversContainer (Chan w)) \<and> st' \<noteq> st \<longrightarrow>
           \<not> assigns (Subs w) (Index (ReceiversContainer (Chan w) ! j)) st'
               (Function (ReceiversContainer (Chan w) ! p))"
  shows "RState (ReceiversContainer (Chan w') ! j) = st"
  using assms
proof (induction i n w rule: SendLoop.induct)
  case (1 i n w)
  show ?case
  proof (cases "i < n \<and> State (Chan w) = Sending")
    case False
    with SendLoop_stop [OF "1.prems"(1)] "1.prems"(4) show ?thesis by simp
  next
    case True
    from SendLoop_unfold [OF "1.prems"(1)] True
    have len: "i < length (ReceiversContainer (Chan w))" and ev: "EndValid w"
      and rec: "SendLoop (Suc i) n
        (if RState (ReceiversContainer (Chan w) ! i) = Active then call_at i w else w) = Inr w'"
      by simp_all
    let ?r = "ReceiversContainer (Chan w) ! i"
    let ?ij = "Index (ReceiversContainer (Chan w) ! j)"
    from "1.prems"(5) have rest: "\<forall>p st'. Suc i \<le> p \<and> p < n \<and>
           p < length (ReceiversContainer (Chan w)) \<and> st' \<noteq> st \<longrightarrow>
           \<not> assigns (Subs w) ?ij st' (Function (ReceiversContainer (Chan w) ! p))"
      by auto
    show ?thesis
    proof (cases "RState ?r = Active")
      case False
      with rec have "SendLoop (Suc i) n w = Inr w'" by simp
      from "1.IH"(1) [OF _ _ _ _ refl _ this "1.prems"(2,3,4) rest] ev True len False
      show ?thesis by simp
    next
      case act: True
      let ?w1 = "call_at i w"
      let ?w0 = "w\<lparr>Invoked := Invoked w @ [(i, Index ?r, InEvent w)]\<rparr>"
      from act rec have r1: "SendLoop (Suc i) n ?w1 = Inr w'" by simp
      from SendLoop_no_Throw [OF "1.prems"(1) _ _ act] True "1.prems"(2)
      have nt: "Throw \<notin> set (Function (ReceiversContainer (Chan w) ! i))" by simp
      from SendLoop_Inr_EndValid [OF r1] have ev1: "EndValid ?w1" .
      from call_at_EndValid [OF ev1] have ss: "same_structure w ?w1" by simp
      then have subs: "Subs ?w1 = Subs w"
        and ids: "map Index (ReceiversContainer (Chan ?w1)) = map Index (ReceiversContainer (Chan w))"
        by (simp_all add: same_structure_def)
      from ids "1.prems"(2) have d1: "distinct (map Index (ReceiversContainer (Chan ?w1)))" by simp
      from same_structure_length [OF ss]
      have l1: "length (ReceiversContainer (Chan ?w1)) = length (ReceiversContainer (Chan w))" .
      with "1.prems"(3) have j1: "j < length (ReceiversContainer (Chan ?w1))" by simp
      from same_structure_Index [OF ss "1.prems"(3)]
      have i1: "Index (ReceiversContainer (Chan ?w1) ! j) = ?ij" .
      from "1.prems"(5) len True
      have here: "\<forall>st'. st' \<noteq> st \<longrightarrow> \<not> assigns (Subs ?w0) (Index (ReceiversContainer (Chan ?w0) ! j)) st'
           (Function ?r)" by simp
      have st1: "RState (ReceiversContainer (Chan ?w1) ! j) = st"
        unfolding call_at_def
        by (rule run_calls_keep [OF ev1 [unfolded call_at_def] _ _ here])
           (use "1.prems"(2,3,4) in simp_all)
      have rest1: "\<forall>p st'. Suc i \<le> p \<and> p < n \<and>
           p < length (ReceiversContainer (Chan ?w1)) \<and> st' \<noteq> st \<longrightarrow>
           \<not> assigns (Subs ?w1) (Index (ReceiversContainer (Chan ?w1) ! j)) st'
              (Function (ReceiversContainer (Chan ?w1) ! p))"
        using rest subs i1 l1 same_structure_Function [OF ss] by simp
      from "1.IH"(2) [OF _ _ _ _ refl _ _ r1 [unfolded call_at_def] d1 [unfolded call_at_def]
          j1 [unfolded call_at_def] st1 [unfolded call_at_def] rest1 [unfolded call_at_def]]
        ev True len act nt
      show ?thesis by simp
    qed
  qed
qed

lemma SendLoop_Sending:
  assumes "SendLoop i n w = Inr w'"
    and "State (Chan w) = Sending"
    and "\<forall>p. i \<le> p \<and> p < n \<and> p < length (ReceiversContainer (Chan w)) \<longrightarrow>
           CallInterrupt \<notin> set (Function (ReceiversContainer (Chan w) ! p))"
  shows "State (Chan w') = Sending"
  using assms
proof (induction i n w rule: SendLoop.induct)
  case (1 i n w)
  show ?case
  proof (cases "i < n")
    case False
    with SendLoop_stop [OF "1.prems"(1)] "1.prems"(2) show ?thesis by simp
  next
    case True
    from SendLoop_unfold [OF "1.prems"(1) True "1.prems"(2)]
    have len: "i < length (ReceiversContainer (Chan w))" and ev: "EndValid w"
      and rec: "SendLoop (Suc i) n
        (if RState (ReceiversContainer (Chan w) ! i) = Active then call_at i w else w) = Inr w'"
      by simp_all
    let ?r = "ReceiversContainer (Chan w) ! i"
    from "1.prems"(3) have rest: "\<forall>p. Suc i \<le> p \<and> p < n \<and>
           p < length (ReceiversContainer (Chan w)) \<longrightarrow>
           CallInterrupt \<notin> set (Function (ReceiversContainer (Chan w) ! p))"
      by auto
    show ?thesis
    proof (cases "RState ?r = Active")
      case False
      with rec have "SendLoop (Suc i) n w = Inr w'" by simp
      from "1.IH"(1) [OF _ _ _ _ refl _ this "1.prems"(2) rest] ev True len False "1.prems"(2)
      show ?thesis by simp
    next
      case act: True
      let ?w1 = "call_at i w"
      from act rec have r1: "SendLoop (Suc i) n ?w1 = Inr w'" by simp
      from SendLoop_no_Throw [OF "1.prems"(1) _ _ act] True "1.prems"(2)
      have nt: "Throw \<notin> set (Function (ReceiversContainer (Chan w) ! i))" by simp
      from SendLoop_Inr_EndValid [OF r1] have ev1: "EndValid ?w1" .
      from call_at_EndValid [OF ev1] have ss: "same_structure w ?w1" by simp
      from same_structure_length [OF ss]
      have l1: "length (ReceiversContainer (Chan ?w1)) = length (ReceiversContainer (Chan w))" .
      from "1.prems"(3) True len have "CallInterrupt \<notin> set (Function ?r)" by simp
      with "1.prems"(2) have s1: "State (Chan ?w1) = Sending"
        by (simp add: call_at_def run_calls_no_Interrupt)
      have rest1: "\<forall>p. Suc i \<le> p \<and> p < n \<and>
           p < length (ReceiversContainer (Chan ?w1)) \<longrightarrow>
           CallInterrupt \<notin> set (Function (ReceiversContainer (Chan ?w1) ! p))"
        using rest l1 same_structure_Function [OF ss] by simp
      from "1.IH"(2) [OF _ _ _ _ refl _ _ r1 [unfolded call_at_def] s1 [unfolded call_at_def]
           rest1 [unfolded call_at_def]]
        ev True len act nt "1.prems"(2)
      show ?thesis by simp
    qed
  qed
qed

lemma same_structure_start [simp]:
  "same_structure (Send_start e w) x = same_structure w x"
  by (simp add: same_structure_def)

lemma Send_reaches:
  assumes "State (Chan w) = Waiting" and "Send e w = Inr w'"
    and "k < length (ReceiversContainer (Chan w))"
  obtains wk where
    "SendLoop 0 k (Send_start e w) = Inr wk" "same_structure w wk" "EndValid wk"
    "k \<in> fst ` set (new_calls w w') \<longleftrightarrow>
       State (Chan wk) = Sending \<and> RState (ReceiversContainer (Chan wk) ! k) = Active"
    "SendLoop 0 (Suc k) (Send_start e w) =
       Inr (if State (Chan wk) = Sending \<and> RState (ReceiversContainer (Chan wk) ! k) = Active
            then call_at k wk else wk)"
proof -
  let ?s = "Send_start e w"
  from assms obtain wk w1 w0 L1 L3 where c:
    "SendLoop 0 k ?s = Inr wk"
    "SendLoop k (Suc k) wk = Inr w1"
    "w' = w0\<lparr>Chan := (Chan w0)\<lparr>State := Waiting\<rparr>\<rparr>"
    "Invoked wk = Invoked w @ L1" "\<forall>x \<in> set L1. fst x < k"
    "Invoked w0 = Invoked w1 @ L3" "\<forall>x \<in> set L3. k < fst x"
    "same_structure ?s wk" "EndValid wk"
    by (rule Send_cut)
  let ?b = "State (Chan wk) = Sending \<and> RState (ReceiversContainer (Chan wk) ! k) = Active"
  from SendLoop_step [OF c(2)] have w1: "w1 = (if ?b then call_at k wk else wk)"
    by (simp split: if_splits)
  then have "Invoked w1 = Invoked wk @
      (if ?b then [(k, Index (ReceiversContainer (Chan wk) ! k), InEvent wk)] else [])"
    by simp
  with c(3,4,6) have "new_calls w w' = L1 @
      (if ?b then [(k, Index (ReceiversContainer (Chan wk) ! k), InEvent wk)] else []) @ L3"
    by (simp add: new_calls_def)
  with c(5,7) have iff: "k \<in> fst ` set (new_calls w w') \<longleftrightarrow> ?b"
    by (auto simp: image_iff split: if_splits)
  from SendLoop_split [of 0 k "Suc k" ?s] c(1,2) w1
  have "SendLoop 0 (Suc k) ?s = Inr (if ?b then call_at k wk else wk)" by simp
  with that c(1,8,9) iff show ?thesis by simp
qed

lemma Pause_nth:
  "distinct (map Index (ReceiversContainer ch)) \<Longrightarrow> j < length (ReceiversContainer ch) \<Longrightarrow>
   ReceiversContainer (Pause h ch) ! j =
     (if Index (ReceiversContainer ch ! j) = ReceiverIndex h
      then (ReceiversContainer ch ! j)\<lparr>RState := Paused\<rparr> else ReceiversContainer ch ! j)"
  by (simp add: Pause_def ForThis_nth)

lemma Resume_nth:
  "distinct (map Index (ReceiversContainer ch)) \<Longrightarrow> j < length (ReceiversContainer ch) \<Longrightarrow>
   ReceiversContainer (Resume h ch) ! j =
     (if Index (ReceiversContainer ch ! j) = ReceiverIndex h
      then (ReceiversContainer ch ! j)\<lparr>RState := Active\<rparr> else ReceiversContainer ch ! j)"
  by (simp add: Resume_def ForThis_nth)

lemma Pause_same [simp]:
  "map Index (ReceiversContainer (Pause h ch)) = map Index (ReceiversContainer ch)"
  "map Function (ReceiversContainer (Pause h ch)) = map Function (ReceiversContainer ch)"
  "NextReceiverIndex (Pause h ch) = NextReceiverIndex ch"
  "State (Pause h ch) = State ch"
  "length (ReceiversContainer (Pause h ch)) = length (ReceiversContainer ch)"
  by (simp_all add: Pause_def)

lemma Resume_same [simp]:
  "map Index (ReceiversContainer (Resume h ch)) = map Index (ReceiversContainer ch)"
  "map Function (ReceiversContainer (Resume h ch)) = map Function (ReceiversContainer ch)"
  "NextReceiverIndex (Resume h ch) = NextReceiverIndex ch"
  "State (Resume h ch) = State ch"
  "length (ReceiversContainer (Resume h ch)) = length (ReceiversContainer ch)"
  by (simp_all add: Resume_def)

lemma Send_same_structure:
  assumes "Send e w = Inr w'"
  shows "same_structure w w'"
proof (cases "State (Chan w) = Waiting")
  case False
  with assms show ?thesis by (simp add: Send_def)
next
  case True
  from True assms obtain w0 where w0:
    "SendLoop 0 (length (ReceiversContainer (Chan w))) (Send_start e w) = Inr w0"
    "w' = w0\<lparr>Chan := (Chan w0)\<lparr>State := Waiting\<rparr>\<rparr>" by (rule Send_Inr)
  from SendLoop_Inr [OF w0(1)] have "same_structure w w0" by simp
  with w0(2) show ?thesis by (simp add: same_structure_def)
qed

lemma Send_State:
  "Send e w = Inr w' \<Longrightarrow> State (Chan w') = State (Chan w)"
  by (auto simp: Send_def split: if_splits sum.splits)

lemma SendLoop_InEvent:
  assumes "SendLoop i n w = Inr w'"
    and "\<forall>p. i \<le> p \<and> p < n \<and> p < length (ReceiversContainer (Chan w)) \<longrightarrow>
           (\<forall>g. Mutate g \<notin> set (Function (ReceiversContainer (Chan w) ! p)))"
  shows "InEvent w' = InEvent w"
  using assms
proof (induction i n w rule: SendLoop.induct)
  case (1 i n w)
  show ?case
  proof (cases "i < n \<and> State (Chan w) = Sending")
    case False
    with SendLoop_stop [OF "1.prems"(1)] show ?thesis by simp
  next
    case True
    from SendLoop_unfold [OF "1.prems"(1)] True
    have len: "i < length (ReceiversContainer (Chan w))" and ev: "EndValid w"
      and rec: "SendLoop (Suc i) n
        (if RState (ReceiversContainer (Chan w) ! i) = Active then call_at i w else w) = Inr w'"
      by simp_all
    let ?r = "ReceiversContainer (Chan w) ! i"
    from "1.prems"(2) have rest: "\<forall>p. Suc i \<le> p \<and> p < n \<and>
           p < length (ReceiversContainer (Chan w)) \<longrightarrow>
           (\<forall>g. Mutate g \<notin> set (Function (ReceiversContainer (Chan w) ! p)))"
      by auto
    show ?thesis
    proof (cases "RState ?r = Active")
      case False
      with rec have "SendLoop (Suc i) n w = Inr w'" by simp
      from "1.IH"(1) [OF _ _ _ _ refl _ this rest] ev True len False
      show ?thesis by simp
    next
      case act: True
      let ?w1 = "call_at i w"
      from act rec have r1: "SendLoop (Suc i) n ?w1 = Inr w'" by simp
      from SendLoop_no_Throw [OF "1.prems"(1) _ _ act] True "1.prems"(2)
      have nt: "Throw \<notin> set (Function (ReceiversContainer (Chan w) ! i))" by simp
      from SendLoop_Inr_EndValid [OF r1] have ev1: "EndValid ?w1" .
      from call_at_EndValid [OF ev1] have ss: "same_structure w ?w1" by simp
      from same_structure_length [OF ss]
      have l1: "length (ReceiversContainer (Chan ?w1)) = length (ReceiversContainer (Chan w))" .
      have nm: "\<And>cs (w::'e World). \<forall>g. Mutate g \<notin> set cs \<Longrightarrow> InEvent (run_calls cs w) = InEvent w"
      proof -
        fix cs and w :: "'e World"
        show "\<forall>g. Mutate g \<notin> set cs \<Longrightarrow> InEvent (run_calls cs w) = InEvent w"
        proof (induction cs arbitrary: w)
          case Nil
          then show ?case by simp
        next
          case (Cons c cs)
          then have "InEvent (act c w) = InEvent w"
            by (cases c) (auto simp: split_def Let_def)
          with Cons show ?case by simp
        qed
      qed
      from "1.prems"(2) True len have "\<forall>g. Mutate g \<notin> set (Function ?r)" by simp
      then have e1: "InEvent ?w1 = InEvent w" by (simp add: call_at_def nm)
      have rest1: "\<forall>p. Suc i \<le> p \<and> p < n \<and>
           p < length (ReceiversContainer (Chan ?w1)) \<longrightarrow>
           (\<forall>g. Mutate g \<notin> set (Function (ReceiversContainer (Chan ?w1) ! p)))"
        using rest l1 same_structure_Function [OF ss] by simp
      from "1.IH"(2) [OF _ _ _ _ refl _ _ r1 [unfolded call_at_def] rest1 [unfolded call_at_def]]
        ev True len act nt e1
      show ?thesis by (simp add: call_at_def)
    qed
  qed
qed

lemma Send_undisturbed:
  assumes "State (Chan w) = Waiting" and "Send e w = Inr w'"
    and "distinct (map Index (ReceiversContainer (Chan w)))"
    and "j < length (ReceiversContainer (Chan w))"
    and "RState (ReceiversContainer (Chan w) ! j) = st"
    and "\<forall>p st'. p < j \<and> st' \<noteq> st \<longrightarrow>
           \<not> assigns (Subs w) (Index (ReceiversContainer (Chan w) ! j)) st'
               (Function (ReceiversContainer (Chan w) ! p))"
  obtains wj L1 L3 where
    "SendLoop 0 j (Send_start e w) = Inr wj"
    "RState (ReceiversContainer (Chan wj) ! j) = st"
    "\<forall>x \<in> set L1. fst x < j" "\<forall>x \<in> set L3. j < fst x"
    "new_calls w w' = L1 @
       (if State (Chan wj) = Sending \<and> st = Active
        then [(j, Index (ReceiversContainer (Chan w) ! j), InEvent wj)] else []) @ L3"
proof -
  from assms(1,2,4) obtain wj L1 L3 where c:
    "SendLoop 0 j (Send_start e w) = Inr wj"
    "\<forall>x \<in> set L1. fst x < j" "\<forall>x \<in> set L3. j < fst x"
    "new_calls w w' = L1 @
       (if State (Chan wj) = Sending \<and> RState (ReceiversContainer (Chan wj) ! j) = Active
        then [(j, Index (ReceiversContainer (Chan w) ! j), InEvent wj)] else []) @ L3"
    by (rule Send_calls_at)
  have "RState (ReceiversContainer (Chan wj) ! j) = st"
  proof (rule SendLoop_keep [OF c(1)])
    show "distinct (map Index (ReceiversContainer (Chan (Send_start e w))))" using assms(3) by simp
    show "j < length (ReceiversContainer (Chan (Send_start e w)))" using assms(4) by simp
    show "RState (ReceiversContainer (Chan (Send_start e w)) ! j) = st" using assms(5) by simp
    show "\<forall>p st'. 0 \<le> p \<and> p < j \<and> p < length (ReceiversContainer (Chan (Send_start e w))) \<and> st' \<noteq> st \<longrightarrow>
           \<not> assigns (Subs (Send_start e w)) (Index (ReceiversContainer (Chan (Send_start e w)) ! j)) st'
               (Function (ReceiversContainer (Chan (Send_start e w)) ! p))"
      using assms(6) by simp
  qed
  with that c show ?thesis by simp
qed

lemma act_nonstructural_same:
  "\<not> structural c \<Longrightarrow> same_structure w (act c w)"
  by (cases c) (auto simp: same_structure_def Interrupt_def)

lemma receives_simps [simp]:
  "receives [] = 0"
  "receives (x # xs) = (if is_Receive x then Suc (receives xs) else receives xs)"
  by (simp_all add: receives_def)

lemma find_if_found: "find_if P xs \<noteq> length xs \<longleftrightarrow> (\<exists>x \<in> set xs. P x)"
  by (induction xs) auto

lemma erase_find_if:
  "distinct (map f xs) \<Longrightarrow> erase (find_if (\<lambda>x. f x = i) xs) xs = filter (\<lambda>x. f x \<noteq> i) xs"
proof (induction xs)
  case Nil
  then show ?case by (simp add: erase_def)
next
  case (Cons x xs)
  show ?case
  proof (cases "f x = i")
    case True
    from Cons.prems have "f x \<notin> f ` set xs" by simp
    with True have "\<forall>y \<in> set xs. f y \<noteq> i" by blast
    then have "filter (\<lambda>x. f x \<noteq> i) xs = xs" by simp
    with True show ?thesis by (simp add: erase_def)
  next
    case False
    with Cons show ?thesis by (simp add: erase_def)
  qed
qed

lemma ForThis_absent: "\<forall>r \<in> set rs. Index r \<noteq> ReceiverIndex h \<Longrightarrow> ForThis h a rs = rs"
  by (induction rs) auto

lemma Remove_found:
  assumes "distinct (map Index (ReceiversContainer ch))"
    and "\<exists>r \<in> set (ReceiversContainer ch). Index r = ReceiverIndex h"
  shows "Remove h ch =
     (h\<lparr>ReceiverIndex := 0\<rparr>,
      ch\<lparr>ReceiversContainer := filter (\<lambda>r. Index r \<noteq> ReceiverIndex h) (ReceiversContainer ch)\<rparr>)"
  using assms find_if_found [of "\<lambda>r. Index r = ReceiverIndex h" "ReceiversContainer ch"]
  by (simp add: Remove_def Let_def erase_find_if)

lemma Remove_absent:
  assumes "\<forall>r \<in> set (ReceiversContainer ch). Index r \<noteq> ReceiverIndex h"
  shows "Remove h ch = (h, ch)"
  using assms find_if_found [of "\<lambda>r. Index r = ReceiverIndex h" "ReceiversContainer ch"]
  by (auto simp: Remove_def Let_def)

lemma set_erase: "set (erase i xs) \<subseteq> set xs"
  by (auto simp: erase_def dest: in_set_takeD in_set_dropD)

lemma sorted_wrt_erase:
  assumes "sorted_wrt P xs"
  shows "sorted_wrt P (erase i xs)"
proof -
  from assms have "sorted_wrt P (take i xs @ drop i xs)" by simp
  then have 1: "sorted_wrt P (take i xs)" and 2: "sorted_wrt P (drop i xs)"
    and 3: "\<forall>x \<in> set (take i xs). \<forall>y \<in> set (drop i xs). P x y"
    unfolding sorted_wrt_append by simp_all
  have "drop (Suc i) xs = drop 1 (drop i xs)" by simp
  then have sub: "set (drop (Suc i) xs) \<subseteq> set (drop i xs)"
    and 4: "sorted_wrt P (drop (Suc i) xs)"
    using 2 by (metis set_drop_subset, metis sorted_wrt_drop)
  from 1 3 4 sub show ?thesis
    unfolding erase_def sorted_wrt_append by blast
qed

lemma Event_wf_same:
  "map Index (ReceiversContainer ch') = map Index (ReceiversContainer ch) \<Longrightarrow>
   NextReceiverIndex ch' = NextReceiverIndex ch \<Longrightarrow> Event_wf ch' = Event_wf ch"
  by (simp add: Event_wf_def)

lemma Event_wf_init: "Event_wf Event_init"
  by (simp add: Event_wf_def Event_init_def)

lemma Receive_simps [simp]:
  "fst (Receive f ch) = \<lparr>ReceiverIndex = NextReceiverIndex ch\<rparr>"
  "ReceiversContainer (snd (Receive f ch)) =
     ReceiversContainer ch @ [\<lparr>RState = Active, Index = NextReceiverIndex ch, Function = f\<rparr>]"
  "NextReceiverIndex (snd (Receive f ch)) = NextReceiverIndex ch + 1"
  "State (snd (Receive f ch)) = State ch"
  by (simp_all add: Receive_def Let_def)

lemma word_less_Suc:
  fixes x y :: "'a::len word"
  assumes "x < y" and "unat y + 1 < 2 ^ LENGTH('a)"
  shows "x < y + 1" and "y < y + 1" and "y + 1 \<noteq> 0" and "unat (y + 1) = unat y + 1"
proof -
  from assms(2) have u: "unat (y + 1) = unat y + 1"
    by (simp add: unat_word_ariths)
  then show "unat (y + 1) = unat y + 1" .
  from u assms(1) show "x < y + 1" by (simp add: word_less_nat_alt)
  from u show "y < y + 1" by (simp add: word_less_nat_alt)
  show "y + 1 \<noteq> 0"
  proof
    assume "y + 1 = 0"
    with u show False by simp
  qed
qed

lemma Receive_wf:
  assumes "Event_wf ch" and "unat (NextReceiverIndex ch) + 1 < 2 ^ 64"
  shows "Event_wf (snd (Receive f ch))"
    and "unat (NextReceiverIndex (snd (Receive f ch))) = unat (NextReceiverIndex ch) + 1"
proof -
  let ?n = "NextReceiverIndex ch"
  from assms(2) have b: "unat ?n + 1 < 2 ^ LENGTH(64)" by simp
  have n0: "?n \<noteq> 0" using assms(1) by (simp add: Event_wf_def)
  then have "0 < ?n" by (simp add: word_neq_0_conv)
  from word_less_Suc(1) [OF this b] word_less_Suc(2,3,4) [OF \<open>0 < ?n\<close> b]
  have s: "0 < ?n + 1" "?n < ?n + 1" "?n + 1 \<noteq> 0" "unat (?n + 1) = unat ?n + 1" .
  from s(4) show "unat (NextReceiverIndex (snd (Receive f ch))) = unat (NextReceiverIndex ch) + 1"
    by simp
  have "\<forall>r \<in> set (ReceiversContainer ch). Index r < ?n + 1"
    using assms(1) word_less_Suc(1) [OF _ b] by (auto simp: Event_wf_def)
  with assms(1) s n0 show "Event_wf (snd (Receive f ch))"
    by (auto simp: Event_wf_def sorted_wrt_append)
qed

lemma Remove_simps [simp]:
  "NextReceiverIndex (snd (Remove h ch)) = NextReceiverIndex ch"
  "State (snd (Remove h ch)) = State ch"
  by (simp_all add: Remove_def Let_def)

lemma Remove_ids:
  "set (ReceiversContainer (snd (Remove h ch))) \<subseteq> set (ReceiversContainer ch)"
  using set_erase [of _ "ReceiversContainer ch"] by (auto simp: Remove_def Let_def)

lemma Remove_wf:
  assumes "Event_wf ch"
  shows "Event_wf (snd (Remove h ch))"
proof -
  have "sorted_wrt (<) (map Index (ReceiversContainer (snd (Remove h ch))))"
    using assms sorted_wrt_erase [of "\<lambda>a b. Index a < Index b" "ReceiversContainer ch"]
    by (simp add: Remove_def Let_def Event_wf_def sorted_wrt_map)
  moreover have "\<forall>r \<in> set (ReceiversContainer (snd (Remove h ch))). r \<in> set (ReceiversContainer ch)"
    using Remove_ids [of h ch] by blast
  ultimately show ?thesis using assms
    by (simp add: Event_wf_def)
qed

lemma act_wf:
  assumes "Event_wf (Chan w)"
    and "unat (NextReceiverIndex (Chan w)) + (if is_Receive (OpCall c) then 1 else 0) < 2 ^ 64"
  shows "Event_wf (Chan (act c w))"
    and "unat (NextReceiverIndex (Chan (act c w))) =
         unat (NextReceiverIndex (Chan w)) + (if is_Receive (OpCall c) then 1 else 0)"
proof -
  show "Event_wf (Chan (act c w))"
  proof (cases c)
    case (CallRemove v)
    with assms(1) Remove_wf [of "Chan w" "Subs w v"] show ?thesis by (simp add: split_def Let_def)
  next
    case (CallReceive v f)
    with assms Receive_wf(1) [of "Chan w" f] show ?thesis by (simp add: split_def Let_def)
  next
    case (CallPause v)
    with assms(1) Event_wf_same [of "Pause (Subs w v) (Chan w)" "Chan w"] show ?thesis by simp
  next
    case (CallResume v)
    with assms(1) Event_wf_same [of "Resume (Subs w v) (Chan w)" "Chan w"] show ?thesis by simp
  next
    case CallInterrupt
    with assms(1) Event_wf_same [of "Interrupt (Chan w)" "Chan w"] show ?thesis
      by (simp add: Interrupt_def)
  next
    case (Mutate g)
    with assms(1) show ?thesis by simp
  next
    case Throw
    with assms(1) show ?thesis by simp
  qed
  show "unat (NextReceiverIndex (Chan (act c w))) =
         unat (NextReceiverIndex (Chan w)) + (if is_Receive (OpCall c) then 1 else 0)"
  proof (cases c)
    case (CallReceive v f)
    with assms Receive_wf(2) [of "Chan w" f] show ?thesis by (simp add: split_def Let_def)
  qed (simp_all add: Interrupt_def split_def Let_def)
qed

lemma Send_wf:
  assumes "Send e w = Inr w'"
  shows "Event_wf (Chan w') = Event_wf (Chan w)"
    and "NextReceiverIndex (Chan w') = NextReceiverIndex (Chan w)"
    and "map Index (ReceiversContainer (Chan w')) = map Index (ReceiversContainer (Chan w))"
    and "Subs w' = Subs w"
proof -
  from Send_same_structure [OF assms]
  show 1: "NextReceiverIndex (Chan w') = NextReceiverIndex (Chan w)"
    and 2: "map Index (ReceiversContainer (Chan w')) = map Index (ReceiversContainer (Chan w))"
    and "Subs w' = Subs w"
    by (simp_all add: same_structure_def)
  from 2 1 show "Event_wf (Chan w') = Event_wf (Chan w)" by (rule Event_wf_same)
qed

lemma run_wf:
  assumes "run ops w = Inr w'" and "Event_wf (Chan w)"
    and "unat (NextReceiverIndex (Chan w)) + receives ops < 2 ^ 64"
  shows "Event_wf (Chan w') \<and>
         unat (NextReceiverIndex (Chan w')) = unat (NextReceiverIndex (Chan w)) + receives ops"
  using assms
proof (induction ops arbitrary: w)
  case Nil
  then show ?case by simp
next
  case (Cons x xs)
  from Cons.prems(1) obtain w1 where w1: "run_op x w = Inr w1" "run xs w1 = Inr w'"
    by (auto split: sum.splits)
  let ?d = "if is_Receive x then 1 else 0 :: nat"
  have step: "Event_wf (Chan w1) \<and>
        unat (NextReceiverIndex (Chan w1)) = unat (NextReceiverIndex (Chan w)) + ?d"
  proof (cases x)
    case (OpSend e)
    with w1(1) have "Send e w = Inr w1" by simp
    from Send_wf(1,2) [OF this] Cons.prems(2) OpSend show ?thesis by simp
  next
    case (OpCall c)
    with Cons.prems(3) have "unat (NextReceiverIndex (Chan w)) +
        (if is_Receive (OpCall c) then 1 else 0) < 2 ^ 64" by (simp split: if_splits)
    from act_wf [OF Cons.prems(2) this] OpCall w1(1) show ?thesis
      by (auto split: if_splits)
  qed
  from Cons.prems(3) have r: "receives (x # xs) = ?d + receives xs" by simp
  with step Cons.prems(3) have "unat (NextReceiverIndex (Chan w1)) + receives xs < 2 ^ 64"
    by linarith
  from Cons.IH [OF w1(2) _ this] step r show ?case by linarith
qed

subsection \<open>Programs, the counter and the indices\<close>

lemma run_init_wf:
  assumes "run ops (World_init e0) = Inr w" and "receives ops < 2 ^ 64 - 1"
  shows "Event_wf (Chan w)"
proof -
  have "Event_wf (Chan (World_init e0))" by (simp add: World_init_def Event_wf_init)
  moreover from assms(2)
  have "unat (NextReceiverIndex (Chan (World_init e0))) + receives ops < 2 ^ 64"
    by (simp add: World_init_def Event_init_def)
  ultimately show ?thesis using run_wf [OF assms(1)] by blast
qed

lemma run_OpCall: "Throw \<notin> set cs \<Longrightarrow> run (map OpCall cs) w = Inr (run_calls cs w)"
  by (induction cs arbitrary: w) auto

lemma run_State:
  "run ops w = Inr w' \<Longrightarrow> State (Chan w) = Waiting \<Longrightarrow> State (Chan w') = Waiting"
proof (induction ops arbitrary: w)
  case Nil
  then show ?case by simp
next
  case (Cons x xs)
  from Cons.prems(1) obtain w1 where w1: "run_op x w = Inr w1" "run xs w1 = Inr w'"
    by (auto split: sum.splits)
  have "State (Chan w1) = Waiting"
  proof (cases x)
    case (OpSend e)
    with w1(1) Send_State [of e w w1] Cons.prems(2) show ?thesis by simp
  next
    case (OpCall c)
    with w1(1) Cons.prems(2) show ?thesis by (auto simp: act_State split: if_splits)
  qed
  with Cons.IH [OF w1(2)] show ?case .
qed

lemma run_calls_dispatching:
  "State (Chan w) \<in> {Sending, Interrupted} \<Longrightarrow>
   State (Chan (run_calls cs w)) \<in> {Sending, Interrupted}"
  by (induction cs arbitrary: w) (auto simp: act_State)

lemma SendLoop_dispatching:
  assumes "SendLoop i n w = Inr w'" and "State (Chan w) \<in> {Sending, Interrupted}"
  shows "State (Chan w') \<in> {Sending, Interrupted}"
  using assms
proof (induction i n w rule: SendLoop.induct)
  case (1 i n w)
  show ?case
  proof (cases "i < n \<and> State (Chan w) = Sending")
    case False
    with SendLoop_stop [OF "1.prems"(1)] "1.prems"(2) show ?thesis by simp
  next
    case True
    from SendLoop_unfold [OF "1.prems"(1)] True
    have len: "i < length (ReceiversContainer (Chan w))" and ev: "EndValid w"
      and rec: "SendLoop (Suc i) n
        (if RState (ReceiversContainer (Chan w) ! i) = Active then call_at i w else w) = Inr w'"
      by simp_all
    let ?r = "ReceiversContainer (Chan w) ! i"
    show ?thesis
    proof (cases "RState ?r = Active")
      case False
      with rec have "SendLoop (Suc i) n w = Inr w'" by simp
      from "1.IH"(1) [OF _ _ _ _ refl _ this "1.prems"(2)] ev True len False
      show ?thesis by simp
    next
      case act: True
      let ?w1 = "call_at i w"
      from act rec have r1: "SendLoop (Suc i) n ?w1 = Inr w'" by simp
      from SendLoop_no_Throw [OF "1.prems"(1) _ _ act] True "1.prems"(2)
      have nt: "Throw \<notin> set (Function (ReceiversContainer (Chan w) ! i))" by simp
      from True have "State (Chan ?w1) \<in> {Sending, Interrupted}"
        unfolding call_at_def by (intro run_calls_dispatching) simp
      from "1.IH"(2) [OF _ _ _ _ refl _ _ r1 [unfolded call_at_def] this [unfolded call_at_def]]
        ev True len act nt
      show ?thesis by simp
    qed
  qed
qed

lemma SendLoop_Thrown_unfold:
  "SendLoop i n w = Inl (Thrown wt) \<Longrightarrow>
   EndValid w \<and> i < n \<and> State (Chan w) = Sending \<and> i < length (ReceiversContainer (Chan w)) \<and>
   (if RState (ReceiversContainer (Chan w) ! i) \<noteq> Active
    then SendLoop (Suc i) n w = Inl (Thrown wt)
    else if Throw \<in> set (Function (ReceiversContainer (Chan w) ! i)) then wt = call_at i w
    else SendLoop (Suc i) n (call_at i w) = Inl (Thrown wt))"
  by (auto simp: SendLoop.simps [of i n w] call_at_def Let_def split: if_splits)

lemma SendLoop_Thrown:
  assumes "SendLoop i n w = Inl (Thrown wt)"
  shows "State (Chan wt) \<in> {Sending, Interrupted}"
  using assms
proof (induction i n w rule: SendLoop.induct)
  case (1 i n w)
  note u = SendLoop_Thrown_unfold [OF "1.prems"]
  let ?r = "ReceiversContainer (Chan w) ! i"
  show ?case
  proof (cases "RState ?r = Active")
    case False
    with u have "SendLoop (Suc i) n w = Inl (Thrown wt)" by simp
    from "1.IH"(1) [OF _ _ _ _ refl _ this] u False show ?thesis by simp
  next
    case act: True
    from u have "State (Chan (call_at i w)) \<in> {Sending, Interrupted}"
      unfolding call_at_def by (intro run_calls_dispatching) simp
    show ?thesis
    proof (cases "Throw \<in> set (Function ?r)")
      case True
      with u act \<open>State (Chan (call_at i w)) \<in> {Sending, Interrupted}\<close> show ?thesis by simp
    next
      case False
      with u act have "SendLoop (Suc i) n (call_at i w) = Inl (Thrown wt)" by simp
      from "1.IH"(2) [OF _ _ _ _ refl _ _ this [unfolded call_at_def]] u act False
      show ?thesis by simp
    qed
  qed
qed

lemma Send_Thrown:
  assumes "Send e w = Inl (Thrown wt)"
  shows "State (Chan w) = Waiting \<and> State (Chan wt) \<in> {Sending, Interrupted}"
proof -
  from assms have w: "State (Chan w) = Waiting" by (auto simp: Send_def split: if_splits)
  with assms
  have "SendLoop 0 (length (ReceiversContainer (Chan w))) (Send_start e w) = Inl (Thrown wt)"
    by (auto simp: Send_def split: sum.splits)
  from SendLoop_Thrown [OF this] w show ?thesis by simp
qed

lemma act_Next:
  "NextReceiverIndex (Chan (act c w)) =
     NextReceiverIndex (Chan w) + (if is_Receive (OpCall c) then 1 else 0)"
  by (cases c) (simp_all add: Interrupt_def split_def Let_def)

lemma run_Next:
  "run ops w = Inr w' \<Longrightarrow>
   NextReceiverIndex (Chan w') = NextReceiverIndex (Chan w) + of_nat (receives ops)"
proof (induction ops arbitrary: w)
  case Nil
  then show ?case by simp
next
  case (Cons x xs)
  from Cons.prems(1) obtain w1 where w1: "run_op x w = Inr w1" "run xs w1 = Inr w'"
    by (auto split: sum.splits)
  have "NextReceiverIndex (Chan w1) =
      NextReceiverIndex (Chan w) + (if is_Receive x then 1 else 0)"
  proof (cases x)
    case (OpSend e)
    with w1(1) Send_wf(2) [of e w w1] show ?thesis by simp
  next
    case (OpCall c)
    with w1(1) act_Next [of c w] show ?thesis by (auto split: if_splits)
  qed
  with Cons.IH [OF w1(2)] show ?case by simp
qed

lemma World_init_simps [simp]:
  "Chan (World_init e) = Event_init"
  "NextReceiverIndex Event_init = 1"
  "ReceiversContainer Event_init = []"
  "State Event_init = Waiting"
  by (simp_all add: World_init_def Event_init_def)

lemma Send_calls_ids:
  assumes "Send e w = Inr w'" and "x \<in> set (new_calls w w')"
  shows "fst (snd x) \<in> Index ` set (ReceiversContainer (Chan w))"
proof (cases "State (Chan w) = Waiting")
  case False
  with assms show ?thesis by (simp add: Send_def new_calls_def)
next
  case True
  from Send_calls_bound [OF True assms] show ?thesis by (metis imageI nth_mem)
qed

lemma Pause_ids:
  "Index ` set (ReceiversContainer (Pause h ch)) = Index ` set (ReceiversContainer ch)"
  by (metis Pause_same(1) set_map)

lemma Resume_ids:
  "Index ` set (ReceiversContainer (Resume h ch)) = Index ` set (ReceiversContainer ch)"
  by (metis Resume_same(1) set_map)

lemma act_ids:
  "Index ` set (ReceiversContainer (Chan (act c w))) \<subseteq>
     Index ` set (ReceiversContainer (Chan w)) \<union>
     (if is_Receive (OpCall c) then {NextReceiverIndex (Chan w)} else {})"
proof (cases c)
  case (CallRemove v)
  with Remove_ids [of "Subs w v" "Chan w"] show ?thesis by (auto simp: split_def Let_def)
next
  case (CallPause v)
  then show ?thesis by (simp add: Pause_ids)
next
  case (CallResume v)
  then show ?thesis by (simp add: Resume_ids)
qed (auto simp: Interrupt_def split_def Let_def)

lemma run_absent:
  assumes "run ops w = Inr w'" and "Event_wf (Chan w)"
    and "unat (NextReceiverIndex (Chan w)) + receives ops < 2 ^ 64"
    and "i \<notin> Index ` set (ReceiversContainer (Chan w))" and "i < NextReceiverIndex (Chan w)"
  shows "i \<notin> Index ` set (ReceiversContainer (Chan w'))"
  using assms
proof (induction ops arbitrary: w)
  case Nil
  then show ?case by simp
next
  case (Cons x xs)
  from Cons.prems(1) obtain w1 where w1: "run_op x w = Inr w1" "run xs w1 = Inr w'"
    by (auto split: sum.splits)
  let ?d = "if is_Receive x then 1 else 0 :: nat"
  from Cons.prems(3) have b: "unat (NextReceiverIndex (Chan w)) + ?d + receives xs < 2 ^ 64"
    by (simp split: if_splits)
  from w1(1) have one: "run [x] w = Inr w1" by simp
  from b have "unat (NextReceiverIndex (Chan w)) + receives [x] < 2 ^ 64" by (simp split: if_splits)
  from run_wf [OF one Cons.prems(2) this]
  have wf1: "Event_wf (Chan w1)"
    and n1: "unat (NextReceiverIndex (Chan w1)) = unat (NextReceiverIndex (Chan w)) + ?d"
    by (simp_all split: if_splits)
  from n1 Cons.prems(5) have lt1: "i < NextReceiverIndex (Chan w1)"
    by (simp add: word_less_nat_alt)
  have out1: "i \<notin> Index ` set (ReceiversContainer (Chan w1))"
  proof (cases x)
    case (OpSend e)
    with w1(1) have "Send e w = Inr w1" by simp
    from Send_wf(3) [OF this] have "Index ` set (ReceiversContainer (Chan w1)) =
        Index ` set (ReceiversContainer (Chan w))" by (metis set_map)
    with Cons.prems(4) show ?thesis by simp
  next
    case (OpCall c)
    with w1(1) have "w1 = act c w" by (simp split: if_splits)
    with act_ids [of c w] Cons.prems(4,5) OpCall show ?thesis
      by (auto split: if_splits)
  qed
  from b n1 have "unat (NextReceiverIndex (Chan w1)) + receives xs < 2 ^ 64" by simp
  from Cons.IH [OF w1(2) wf1 this out1 lt1] show ?case .
qed

lemma Event_wf_distinct: "Event_wf ch \<Longrightarrow> distinct (map Index (ReceiversContainer ch))"
  unfolding Event_wf_def using strict_sorted_iff strict_sorted_imp_sorted
  by (metis sorted_wrt_iff_nth_less distinct_conv_nth less_irrefl length_map nat_neq_iff)

lemma run_calls_Subs:
  "\<forall>c \<in> set cs. \<exists>u. c = CallPause u \<or> c = CallResume u \<Longrightarrow> Subs (run_calls cs w) = Subs w"
  by (induction cs arbitrary: w) auto

section \<open>Claims\<close>

text \<open>The equations that evaluate a dispatch on a given world.\<close>

lemmas run_simps = Send_def Send_start_def SendLoop.simps run_calls_def Let_def
  Interrupt_def Pause_def Resume_def Remove_def Receive_def erase_def new_calls_def

text \<open>
  C1. Let a \<^verbatim>\<open>Send\<close> start with \<^verbatim>\<open>State\<close> equal to \<^verbatim>\<open>Waiting\<close> and return. The calls it
  makes are in the order of the container, at most one for a position. For every position
  \<open>k\<close> of the container, let \<open>wk\<close> be the world at the moment the loop reaches \<open>k\<close>: the
  receiver at \<open>k\<close> is called exactly when in \<open>wk\<close> the dispatch has not been interrupted and
  that receiver is \<^verbatim>\<open>Active\<close>; a \<^verbatim>\<open>Paused\<close> one is passed over with no call. The event it is
  called with is the event object of \<open>wk\<close>, so as the receivers called before have left it,
  and the loop goes on from the world its function leaves (\<open>call_at k wk\<close>), in which the
  event object holds what that function has written to it.
\<close>

theorem Send_invokes_active_in_order:
  assumes "State (Chan w) = Waiting" and "Send e w = Inr w'"
  shows "sorted_wrt (<) (map fst (new_calls w w')) \<and>
    (\<forall>x \<in> set (new_calls w w'). fst x < length (ReceiversContainer (Chan w))) \<and>
    (\<forall>k < length (ReceiversContainer (Chan w)). \<exists>wk.
       SendLoop 0 k (Send_start e w) = Inr wk \<and>
       filter (\<lambda>x. fst x = k) (new_calls w w') =
         (if State (Chan wk) = Sending \<and> RState (ReceiversContainer (Chan wk) ! k) = Active
          then [(k, Index (ReceiversContainer (Chan w) ! k), InEvent wk)] else []) \<and>
       SendLoop 0 (Suc k) (Send_start e w) =
         Inr (if State (Chan wk) = Sending \<and> RState (ReceiversContainer (Chan wk) ! k) = Active
              then call_at k wk else wk) \<and>
       InEvent (call_at k wk) = written (Function (ReceiversContainer (Chan w) ! k)) (InEvent wk))"
proof (intro conjI allI impI ballI)
  show "sorted_wrt (<) (map fst (new_calls w w'))" using assms by (rule Send_sorted)
next
  fix x assume "x \<in> set (new_calls w w')"
  from Send_calls_bound [OF assms this]
  show "fst x < length (ReceiversContainer (Chan w))" by simp
next
  fix k assume k: "k < length (ReceiversContainer (Chan w))"
  let ?s = "Send_start e w"
  from assms k obtain wk L1 L3 where c:
    "SendLoop 0 k ?s = Inr wk"
    "\<forall>x \<in> set L1. fst x < k" "\<forall>x \<in> set L3. k < fst x"
    "new_calls w w' = L1 @
       (if State (Chan wk) = Sending \<and> RState (ReceiversContainer (Chan wk) ! k) = Active
        then [(k, Index (ReceiversContainer (Chan w) ! k), InEvent wk)] else []) @ L3"
    by (rule Send_calls_at)
  let ?b = "State (Chan wk) = Sending \<and> RState (ReceiversContainer (Chan wk) ! k) = Active"
  have "filter (\<lambda>x. fst x = k) L1 = []" "filter (\<lambda>x. fst x = k) L3 = []"
    using c(2,3) by (auto simp: filter_empty_conv)
  with c(4) have 1: "filter (\<lambda>x. fst x = k) (new_calls w w') =
      (if ?b then [(k, Index (ReceiversContainer (Chan w) ! k), InEvent wk)] else [])"
    by simp
  from assms k obtain wk' where r:
    "SendLoop 0 k ?s = Inr wk'"
    "SendLoop 0 (Suc k) ?s =
       Inr (if State (Chan wk') = Sending \<and> RState (ReceiversContainer (Chan wk') ! k) = Active
            then call_at k wk' else wk')"
    by (rule Send_reaches)
  from r(1) c(1) have "wk' = wk" by simp
  with r(2) have 2: "SendLoop 0 (Suc k) ?s = Inr (if ?b then call_at k wk else wk)" by simp
  from SendLoop_Inr [OF c(1)] have "same_structure w wk" by simp
  from same_structure_Function [OF this k]
  have 3: "InEvent (call_at k wk) = written (Function (ReceiversContainer (Chan w) ! k)) (InEvent wk)"
    by (simp add: call_at_def run_calls_InEvent)
  from c(1) 1 2 3
  show "\<exists>wk. SendLoop 0 k ?s = Inr wk \<and>
       filter (\<lambda>x. fst x = k) (new_calls w w') =
         (if State (Chan wk) = Sending \<and> RState (ReceiversContainer (Chan wk) ! k) = Active
          then [(k, Index (ReceiversContainer (Chan w) ! k), InEvent wk)] else []) \<and>
       SendLoop 0 (Suc k) ?s =
         Inr (if State (Chan wk) = Sending \<and> RState (ReceiversContainer (Chan wk) ! k) = Active
              then call_at k wk else wk) \<and>
       InEvent (call_at k wk) = written (Function (ReceiversContainer (Chan w) ! k)) (InEvent wk)"
    by blast
qed

text \<open>Three receivers, the second paused, the first adding one to the event: the first is
  called with 5 and the third with 6.\<close>

theorem Send_invokes_active_in_order_witness:
  "State (Chan three_receivers) = Waiting \<and>
   (\<exists>w'. Send 5 three_receivers = Inr w' \<and>
      new_calls three_receivers w' = [(0, 1, 5), (2, 3, 6)] \<and>
      sorted_wrt (<) (map fst (new_calls three_receivers w')) \<and>
      (\<forall>x \<in> set (new_calls three_receivers w').
         fst x < length (ReceiversContainer (Chan three_receivers))) \<and>
      (\<forall>k < length (ReceiversContainer (Chan three_receivers)). \<exists>wk.
         SendLoop 0 k (Send_start 5 three_receivers) = Inr wk \<and>
         filter (\<lambda>x. fst x = k) (new_calls three_receivers w') =
           (if State (Chan wk) = Sending \<and> RState (ReceiversContainer (Chan wk) ! k) = Active
            then [(k, Index (ReceiversContainer (Chan three_receivers) ! k), InEvent wk)] else []) \<and>
         SendLoop 0 (Suc k) (Send_start 5 three_receivers) =
           Inr (if State (Chan wk) = Sending \<and> RState (ReceiversContainer (Chan wk) ! k) = Active
                then call_at k wk else wk) \<and>
         InEvent (call_at k wk) =
           written (Function (ReceiversContainer (Chan three_receivers) ! k)) (InEvent wk)))"
proof -
  have h1: "State (Chan three_receivers) = Waiting" by (simp add: three_receivers_def)
  have "\<exists>w'. Send 5 three_receivers = Inr w' \<and>
      new_calls three_receivers w' = [(0, 1, 5), (2, 3, 6)]"
    by (simp add: three_receivers_def run_simps)
  then obtain w' where h2: "Send 5 three_receivers = Inr w'"
    and log: "new_calls three_receivers w' = [(0, 1, 5), (2, 3, 6)]" by blast
  note c = Send_invokes_active_in_order [OF h1 h2]
  from h1 h2 log c show ?thesis by blast
qed

text \<open>
  C2. Let a \<^verbatim>\<open>Send\<close> start with \<^verbatim>\<open>State\<close> equal to \<^verbatim>\<open>Waiting\<close> and return, and let it call the
  receiver at position \<open>k\<close>, whose function calls \<^verbatim>\<open>Interrupt\<close>. Then no receiver after
  position \<open>k\<close> is called; when the function of that receiver has returned, \<^verbatim>\<open>State\<close> is
  \<^verbatim>\<open>Interrupted\<close>, the loop stops there, and what \<^verbatim>\<open>Send\<close> returns is that world with
  \<^verbatim>\<open>State\<close> set back to \<^verbatim>\<open>Waiting\<close>: the calls made up to and including position \<open>k\<close>
  and all their effects are in it.
\<close>

theorem Interrupt_stops_dispatch:
  assumes "State (Chan w) = Waiting" and "Send e w = Inr w'"
    and "x \<in> set (new_calls w w')" and "fst x = k"
    and "CallInterrupt \<in> set (Function (ReceiversContainer (Chan w) ! k))"
  shows "(\<forall>y \<in> set (new_calls w w'). fst y \<le> k) \<and>
    (\<exists>w1. SendLoop 0 (Suc k) (Send_start e w) = Inr w1 \<and> State (Chan w1) = Interrupted \<and>
       w' = w1\<lparr>Chan := (Chan w1)\<lparr>State := Waiting\<rparr>\<rparr>)"
proof -
  let ?n = "length (ReceiversContainer (Chan w))" and ?s = "Send_start e w"
  from Send_calls_bound [OF assms(1,2,3)] assms(4) have k: "k < ?n" by simp
  from assms(1,2) k obtain wk w1 w0 L1 L3 where c:
    "SendLoop 0 k ?s = Inr wk"
    "SendLoop k (Suc k) wk = Inr w1"
    "SendLoop (Suc k) ?n w1 = Inr w0"
    "w' = w0\<lparr>Chan := (Chan w0)\<lparr>State := Waiting\<rparr>\<rparr>"
    "Invoked wk = Invoked w @ L1" "\<forall>x \<in> set L1. fst x < k"
    "Invoked w0 = Invoked w1 @ L3" "\<forall>x \<in> set L3. k < fst x"
    "same_structure ?s wk" "EndValid wk"
    by (rule Send_cut)
  let ?b = "State (Chan wk) = Sending \<and> RState (ReceiversContainer (Chan wk) ! k) = Active"
  have b: ?b
  proof (rule ccontr)
    assume "\<not> ?b"
    with SendLoop_step [OF c(2)] have "w1 = wk" by (simp split: if_splits)
    with c(4,5,7) have "new_calls w w' = L1 @ L3" by (simp add: new_calls_def)
    with assms(3,4) c(6,8) show False by auto
  qed
  with SendLoop_step [OF c(2)] have w1: "w1 = call_at k wk" "EndValid w1"
    and nt: "Throw \<notin> set (Function (ReceiversContainer (Chan wk) ! k))" by auto
  from same_structure_Function [OF c(9)] k
  have "Function (ReceiversContainer (Chan wk) ! k) = Function (ReceiversContainer (Chan w) ! k)"
    by simp
  with assms(5) b w1(1) nt have int: "State (Chan w1) = Interrupted"
    by (simp add: call_at_def run_calls_Interrupt)
  with w1(2) c(3) have w0: "w0 = w1" by (simp add: SendLoop_break)
  from SendLoop_split [of 0 k "Suc k" ?s] c(1,2) have "SendLoop 0 (Suc k) ?s = Inr w1" by simp
  with int w0 c(4) have 2: "\<exists>w1. SendLoop 0 (Suc k) ?s = Inr w1 \<and> State (Chan w1) = Interrupted \<and>
       w' = w1\<lparr>Chan := (Chan w1)\<lparr>State := Waiting\<rparr>\<rparr>" by blast
  from w0 w1(1) c(4,5) have "new_calls w w' = L1 @ [(k, Index (ReceiversContainer (Chan wk) ! k), InEvent wk)]"
    by (simp add: new_calls_def)
  with c(6) have 1: "\<forall>y \<in> set (new_calls w w'). fst y \<le> k" by auto
  from 1 2 show ?thesis by blast
qed

text \<open>Two receivers, the first interrupting after it has added one to the event: only the
  first is called, and the event keeps what it wrote.\<close>

theorem Interrupt_stops_dispatch_witness:
  "State (Chan interrupting) = Waiting \<and>
   CallInterrupt \<in> set (Function (ReceiversContainer (Chan interrupting) ! 0)) \<and>
   (\<exists>w'. Send 5 interrupting = Inr w' \<and>
      new_calls interrupting w' = [(0, 1, 5)] \<and> InEvent w' = 6 \<and>
      (\<forall>y \<in> set (new_calls interrupting w'). fst y \<le> 0) \<and>
      (\<exists>w1. SendLoop 0 (Suc 0) (Send_start 5 interrupting) = Inr w1 \<and>
         State (Chan w1) = Interrupted \<and> w' = w1\<lparr>Chan := (Chan w1)\<lparr>State := Waiting\<rparr>\<rparr>))"
proof -
  have h1: "State (Chan interrupting) = Waiting" by (simp add: interrupting_def)
  have h5: "CallInterrupt \<in> set (Function (ReceiversContainer (Chan interrupting) ! 0))"
    by (simp add: interrupting_def)
  have "\<exists>w'. Send 5 interrupting = Inr w' \<and> new_calls interrupting w' = [(0, 1, 5)] \<and>
      InEvent w' = 6"
    by (simp add: interrupting_def run_simps)
  then obtain w' where h2: "Send 5 interrupting = Inr w'"
    and log: "new_calls interrupting w' = [(0, 1, 5)]" and ev: "InEvent w' = 6" by blast
  from log have h3: "(0, 1, 5) \<in> set (new_calls interrupting w')" by simp
  have h4: "fst (0::nat, 1::ReceiverIndex, 5::nat) = 0" by simp
  note c = Interrupt_stops_dispatch [OF h1 h2 h3 h4 h5]
  from h1 h5 h2 log ev c show ?thesis by blast
qed




text \<open>
  C4, as amended. The channel starts with \<^verbatim>\<open>State\<close> equal to \<^verbatim>\<open>Waiting\<close>. A \<^verbatim>\<open>Send\<close> that
  starts with \<^verbatim>\<open>State\<close> equal to \<^verbatim>\<open>Waiting\<close> and returns leaves it \<^verbatim>\<open>Waiting\<close>, whether its
  loop reached the end of the container or left at the \<^verbatim>\<open>break\<close>; it does return when no
  receiver function calls \<^verbatim>\<open>Remove\<close> or \<^verbatim>\<open>Receive\<close> or leaves by an exception. As long as
  the loop runs, \<^verbatim>\<open>State\<close> is \<^verbatim>\<open>Sending\<close> or \<^verbatim>\<open>Interrupted\<close>. A \<^verbatim>\<open>Send\<close> that a receiver
  leaves by an exception had passed the guard and never reaches line 105: in the world it
  leaves, \<^verbatim>\<open>State\<close> is still \<^verbatim>\<open>Sending\<close> or \<^verbatim>\<open>Interrupted\<close>, and every later \<^verbatim>\<open>Send\<close>
  returns at line 83. After every program of dispatches and of calls made outside a
  dispatch, run from the initial world, in which every dispatch has returned, \<^verbatim>\<open>State\<close> is
  \<^verbatim>\<open>Waiting\<close>; a program's beginnings are programs, so this is the state between any two of
  its operations.
\<close>

theorem Send_returning_leaves_Waiting:
  "State (Chan (World_init e0)) = Waiting \<and>
   (State (Chan w) = Waiting \<and> Send e w = Inr w' \<longrightarrow> State (Chan w') = Waiting) \<and>
   (State (Chan w) = Waiting \<and> no_structural w \<and> no_throw w \<longrightarrow>
      (\<exists>w'. Send e w = Inr w' \<and> State (Chan w') = Waiting)) \<and>
   (SendLoop 0 k (Send_start e w) = Inr wk \<longrightarrow> State (Chan wk) \<in> {Sending, Interrupted}) \<and>
   (Send e w = Inl (Thrown wt) \<longrightarrow>
      State (Chan w) = Waiting \<and> State (Chan wt) \<in> {Sending, Interrupted} \<and>
      Send e' wt = Inr wt) \<and>
   (run ops (World_init e0) = Inr w'' \<longrightarrow> State (Chan w'') = Waiting)"
proof (intro conjI impI)
  show i: "State (Chan (World_init e0)) = Waiting"
    by (simp add: World_init_def Event_init_def)
  show "State (Chan w') = Waiting" if "State (Chan w) = Waiting \<and> Send e w = Inr w'"
    using that Send_State [of e w w'] by simp
  show "\<exists>w'. Send e w = Inr w' \<and> State (Chan w') = Waiting"
    if "State (Chan w) = Waiting \<and> no_structural w \<and> no_throw w"
  proof -
    from that Send_total [of w e] obtain w' where "Send e w = Inr w'" by blast
    with that Send_State [of e w w'] show ?thesis by auto
  qed
  show "State (Chan wk) \<in> {Sending, Interrupted}" if "SendLoop 0 k (Send_start e w) = Inr wk"
    using that by (rule SendLoop_dispatching) simp
  show "State (Chan w) = Waiting" if "Send e w = Inl (Thrown wt)"
    using Send_Thrown [OF that] by simp
  show "State (Chan wt) \<in> {Sending, Interrupted}" if "Send e w = Inl (Thrown wt)"
    using Send_Thrown [OF that] by simp
  show "Send e' wt = Inr wt" if "Send e w = Inl (Thrown wt)"
    using Send_Thrown [OF that] by (auto simp: Send_def)
  show "State (Chan w'') = Waiting" if "run ops (World_init e0) = Inr w''"
    using that i by (rule run_State)
qed

text \<open>The dispatch that its first receiver interrupts; the dispatch that its first
  receiver interrupts and then leaves by an exception; and a program that registers an
  interrupting receiver, dispatches, and calls \<^verbatim>\<open>Interrupt\<close> outside the dispatch.\<close>

theorem Send_returning_leaves_Waiting_witness:
  "State (Chan interrupting) = Waiting \<and> no_structural interrupting \<and> no_throw interrupting \<and>
   (\<exists>w'. Send 5 interrupting = Inr w' \<and> State (Chan w') = Waiting) \<and>
   (\<exists>wk. SendLoop 0 1 (Send_start 5 interrupting) = Inr wk \<and> State (Chan wk) = Interrupted \<and>
      State (Chan wk) \<in> {Sending, Interrupted}) \<and>
   (\<exists>wt. Send 5 (first_does [CallInterrupt, Throw]) = Inl (Thrown wt) \<and>
      State (Chan (first_does [CallInterrupt, Throw])) = Waiting \<and>
      State (Chan wt) \<in> {Sending, Interrupted} \<and> Send 7 wt = Inr wt) \<and>
   (\<exists>w''. run [OpCall (CallReceive 0 [CallInterrupt]), OpSend 5, OpCall CallInterrupt]
            (World_init (0::nat)) = Inr w'' \<and> State (Chan w'') = Waiting)"
proof -
  have h1: "State (Chan interrupting) = Waiting" by (simp add: interrupting_def)
  have h2: "no_structural interrupting" by (simp add: interrupting_def no_structural_def)
  have h5: "no_throw interrupting" by (simp add: interrupting_def no_throw_def)
  have "\<exists>wk. SendLoop 0 1 (Send_start 5 interrupting) = Inr wk \<and> State (Chan wk) = Interrupted"
    by (simp add: interrupting_def run_simps)
  then obtain wk where h3: "SendLoop 0 1 (Send_start 5 interrupting) = Inr wk"
    and i: "State (Chan wk) = Interrupted" by blast
  have "\<exists>w''. run [OpCall (CallReceive 0 [CallInterrupt]), OpSend 5, OpCall CallInterrupt]
            (World_init (0::nat)) = Inr w''"
    by (simp add: World_init_def Event_init_def run_simps)
  then obtain w'' where h4: "run [OpCall (CallReceive 0 [CallInterrupt]), OpSend 5, OpCall CallInterrupt]
            (World_init (0::nat)) = Inr w''" by blast
  have "\<exists>wt. Send 5 (first_does [CallInterrupt, Throw]) = Inl (Thrown wt)"
    by (simp add: first_does_def run_simps)
  then obtain wt where h6: "Send 5 (first_does [CallInterrupt, Throw]) = Inl (Thrown wt)" by blast
  note c = Send_returning_leaves_Waiting [of 0 interrupting 5 _ 1 wk _ _
      "[OpCall (CallReceive 0 [CallInterrupt]), OpSend 5, OpCall CallInterrupt]" w'']
  note t = Send_returning_leaves_Waiting [of 0 "first_does [CallInterrupt, Throw]" 5 _ _ _ wt 7]
  from c h1 h2 h5 have a: "\<exists>w'. Send 5 interrupting = Inr w' \<and> State (Chan w') = Waiting" by blast
  from c h3 have b: "State (Chan wk) \<in> {Sending, Interrupted}" by blast
  from c h4 have d: "State (Chan w'') = Waiting" by blast
  from t h6 have e: "State (Chan (first_does [CallInterrupt, Throw])) = Waiting \<and>
      State (Chan wt) \<in> {Sending, Interrupted} \<and> Send 7 wt = Inr wt" by blast
  from h6 e have f: "\<exists>wt. Send 5 (first_does [CallInterrupt, Throw]) = Inl (Thrown wt) \<and>
      State (Chan (first_does [CallInterrupt, Throw])) = Waiting \<and>
      State (Chan wt) \<in> {Sending, Interrupted} \<and> Send 7 wt = Inr wt" by blast
  from h1 h2 h5 a h3 i b f h4 d show ?thesis by blast
qed

text \<open>
  C4 as stated fails where a receiver leaves by an exception: \<^verbatim>\<open>Send\<close> has no handler and
  no guard object, so the exception leaves it between line 86 and line 105. A program
  registers an empty function, \<^verbatim>\<open>Receive({})\<close>, and dispatches: line 102 throws
  \<^verbatim>\<open>std::bad_function_call\<close>, and in the world the dispatch leaves \<^verbatim>\<open>State\<close> is
  \<^verbatim>\<open>Sending\<close>. A receiver that interrupts and then throws leaves \<^verbatim>\<open>State\<close> equal to
  \<^verbatim>\<open>Interrupted\<close> after the \<^verbatim>\<open>Send\<close> it was called by. In either world the next \<^verbatim>\<open>Send\<close>
  returns at line 83 and calls no receiver.
\<close>

theorem Send_left_by_exception_counterexample:
  "(\<exists>w0 wt. run [OpCall (CallReceive 0 [Throw])] (World_init (0::nat)) = Inr w0 \<and>
      State (Chan w0) = Waiting \<and> Send 5 w0 = Inl (Thrown wt) \<and>
      State (Chan wt) = Sending \<and> Send 7 wt = Inr wt) \<and>
   (\<exists>wt. Send 5 (first_does [CallInterrupt, Throw]) = Inl (Thrown wt) \<and>
      State (Chan wt) = Interrupted \<and> Send 7 wt = Inr wt \<and>
      Invoked wt = [(0, 1, 5)])"
  by (simp add: World_init_def Event_init_def first_does_def run_simps)

text \<open>
  C5. A \<^verbatim>\<open>Send\<close> that finds \<^verbatim>\<open>State\<close> different from \<^verbatim>\<open>Waiting\<close> returns at line 83: no
  receiver is called and nothing of the program state changes, the channel's \<^verbatim>\<open>State\<close>,
  \<^verbatim>\<open>ReceiversContainer\<close> and \<^verbatim>\<open>NextReceiverIndex\<close> included. A receiver is called with
  \<^verbatim>\<open>State\<close> equal to \<^verbatim>\<open>Sending\<close>, and whatever calls \<open>cs\<close> it has made since, a \<^verbatim>\<open>Send\<close> at
  that point is such a one.
\<close>

theorem Send_while_not_Waiting:
  "State (Chan w) \<noteq> Waiting \<Longrightarrow>
   Send e w = Inr w \<and> Send e (run_calls cs w) = Inr (run_calls cs w)"
  by (simp add: Send_def run_calls_not_Waiting)

text \<open>A \<^verbatim>\<open>Send\<close> in the middle of a dispatch, before and after the receiver has
  interrupted it.\<close>

theorem Send_while_not_Waiting_witness:
  "State (Chan (Send_start 5 interrupting)) \<noteq> Waiting \<and>
   Send 7 (Send_start 5 interrupting) = Inr (Send_start 5 interrupting) \<and>
   State (Chan (run_calls [Mutate Suc, CallInterrupt] (Send_start 5 interrupting))) = Interrupted \<and>
   Send 7 (run_calls [Mutate Suc, CallInterrupt] (Send_start 5 interrupting)) =
     Inr (run_calls [Mutate Suc, CallInterrupt] (Send_start 5 interrupting))"
proof -
  have h: "State (Chan (Send_start 5 interrupting)) \<noteq> Waiting" by simp
  have i: "State (Chan (run_calls [Mutate Suc, CallInterrupt] (Send_start 5 interrupting))) =
      Interrupted"
    by (simp add: Interrupt_def)
  from h i Send_while_not_Waiting [OF h, of 7 "[Mutate Suc, CallInterrupt]"]
  show ?thesis by simp
qed

text \<open>
  C6, as amended. \<^verbatim>\<open>Receive\<close> has no precondition: on every channel it appends one
  receiver, \<^verbatim>\<open>Active\<close>, whose \<^verbatim>\<open>Index\<close> is the counter, adds one to the counter and returns
  a subscription bound to that index. For every program that runs from the initial world
  and calls \<^verbatim>\<open>Receive\<close> fewer than \<open>2\<^sup>6\<^sup>4 - 1\<close> times: the counter is the number of those
  calls plus one, so the indices assigned are 1, 2, 3 and so on in the order of the calls,
  whatever has been removed in between; the subscription that the next \<^verbatim>\<open>Receive\<close> returns
  is valid, its index not being 0; every index in the container is different from 0 and
  below the counter, and the indices grow strictly along the container; and once the
  program has gone on to register again, the counter is larger than it was, so that no
  index is assigned twice.
\<close>

theorem Receive_assigns_next_index:
  assumes "run ops (World_init e0) = Inr w" and "receives ops < 2 ^ 64 - 1"
  shows "unat (NextReceiverIndex (Chan w)) = receives ops + 1 \<and>
    Receive f (Chan w) =
      (\<lparr>ReceiverIndex = NextReceiverIndex (Chan w)\<rparr>,
       (Chan w)\<lparr>ReceiversContainer := ReceiversContainer (Chan w) @
                   [\<lparr>RState = Active, Index = NextReceiverIndex (Chan w), Function = f\<rparr>],
                NextReceiverIndex := NextReceiverIndex (Chan w) + 1\<rparr>) \<and>
    IsValid (fst (Receive f (Chan w))) \<and>
    (\<forall>r \<in> set (ReceiversContainer (Chan w)).
        Index r \<noteq> 0 \<and> unat (Index r) < unat (NextReceiverIndex (Chan w))) \<and>
    sorted_wrt (<) (map (\<lambda>r. unat (Index r)) (ReceiversContainer (Chan w))) \<and>
    (\<forall>ops' w'. run (ops @ ops') (World_init e0) = Inr w' \<and>
        receives (ops @ ops') < 2 ^ 64 - 1 \<and> receives ops < receives (ops @ ops') \<longrightarrow>
        unat (NextReceiverIndex (Chan w)) < unat (NextReceiverIndex (Chan w')))"
proof -
  have n0: "unat (NextReceiverIndex (Chan (World_init e0))) = 1"
    and wf0: "Event_wf (Chan (World_init e0))"
    by (simp_all add: World_init_def Event_init_def Event_wf_init [unfolded Event_init_def])
  from assms(2) n0 have "unat (NextReceiverIndex (Chan (World_init e0))) + receives ops < 2 ^ 64"
    by simp
  from run_wf [OF assms(1) wf0 this] n0
  have wf: "Event_wf (Chan w)" and n: "unat (NextReceiverIndex (Chan w)) = receives ops + 1"
    by simp_all
  from wf have "IsValid (fst (Receive f (Chan w)))" by (simp add: Event_wf_def IsValid_def)
  moreover from wf have "\<forall>r \<in> set (ReceiversContainer (Chan w)).
        Index r \<noteq> 0 \<and> unat (Index r) < unat (NextReceiverIndex (Chan w))"
    by (simp add: Event_wf_def word_less_nat_alt)
  moreover from wf have "sorted_wrt (<) (map (\<lambda>r. unat (Index r)) (ReceiversContainer (Chan w)))"
    by (simp add: Event_wf_def sorted_wrt_map word_less_nat_alt)
  moreover have "Receive f (Chan w) =
      (\<lparr>ReceiverIndex = NextReceiverIndex (Chan w)\<rparr>,
       (Chan w)\<lparr>ReceiversContainer := ReceiversContainer (Chan w) @
                   [\<lparr>RState = Active, Index = NextReceiverIndex (Chan w), Function = f\<rparr>],
                NextReceiverIndex := NextReceiverIndex (Chan w) + 1\<rparr>)"
    by (simp add: Receive_def Let_def)
  moreover have "unat (NextReceiverIndex (Chan w)) < unat (NextReceiverIndex (Chan w'))"
    if "run (ops @ ops') (World_init e0) = Inr w' \<and>
        receives (ops @ ops') < 2 ^ 64 - 1 \<and> receives ops < receives (ops @ ops')"
    for ops' w'
  proof -
    from that have r: "run (ops @ ops') (World_init e0) = Inr w'"
      and b: "receives (ops @ ops') < 2 ^ 64 - 1" and l: "receives ops < receives (ops @ ops')"
      by simp_all
    from b n0 have "unat (NextReceiverIndex (Chan (World_init e0))) + receives (ops @ ops') < 2 ^ 64"
      by simp
    from run_wf [OF r wf0 this] n0
    have "unat (NextReceiverIndex (Chan w')) = receives (ops @ ops') + 1" by simp
    with n l show ?thesis by simp
  qed
  ultimately show ?thesis using n by blast
qed

text \<open>Two registrations, the second removed: the index 2 is not given again, the next
  one is 3.\<close>

theorem Receive_assigns_next_index_witness:
  "receives two_registrations < 2 ^ 64 - 1 \<and>
   (\<exists>w. run two_registrations (World_init 0) = Inr w \<and>
      map Index (ReceiversContainer (Chan w)) = [1] \<and>
      unat (NextReceiverIndex (Chan w)) = 3 \<and>
      ReceiverIndex (fst (Receive [] (Chan w))) = 3 \<and>
      IsValid (fst (Receive [] (Chan w))))"
proof -
  have h2: "receives two_registrations < 2 ^ 64 - 1" by (simp add: two_registrations_def)
  have "\<exists>w. run two_registrations (World_init 0) = Inr w \<and>
      map Index (ReceiversContainer (Chan w)) = [1]"
    by (simp add: two_registrations_def World_init_def Event_init_def Subscription_default_def
        run_simps)
  then obtain w where h1: "run two_registrations (World_init 0) = Inr w"
    and ids: "map Index (ReceiversContainer (Chan w)) = [1]" by auto
  from Receive_assigns_next_index [OF h1 h2, of "[]"]
  have n: "unat (NextReceiverIndex (Chan w)) = receives two_registrations + 1"
    and r: "fst (Receive [] (Chan w)) = \<lparr>ReceiverIndex = NextReceiverIndex (Chan w)\<rparr>"
    and v: "IsValid (fst (Receive [] (Chan w)))" by simp_all
  from n have n3: "unat (NextReceiverIndex (Chan w)) = 3" by (simp add: two_registrations_def)
  then have "unat (NextReceiverIndex (Chan w)) = unat (3 :: 64 word)" by simp
  then have "NextReceiverIndex (Chan w) = 3" by (simp only: word_unat_eq_iff)
  with r have "ReceiverIndex (fst (Receive [] (Chan w))) = 3" by simp
  with n3 h1 h2 ids v show ?thesis by auto
qed

text \<open>
  C6 as stated fails for long sequences, since the counter is a \<^verbatim>\<open>size_t\<close> and wraps
  around: after \<open>2\<^sup>6\<^sup>4 - 1\<close> calls of \<^verbatim>\<open>Receive\<close> from the initial world the counter is
  0, and the next \<^verbatim>\<open>Receive\<close> assigns the index 0 and returns a subscription that is not
  valid.
\<close>

theorem Receive_after_wrap_counterexample:
  "(case run (replicate (2 ^ 64 - 1) (OpCall (CallReceive 0 []))) (World_init (0::nat)) of
      Inl f \<Rightarrow> False
    | Inr w \<Rightarrow> ReceiverIndex (fst (Receive [] (Chan w))) = 0 \<and>
               \<not> IsValid (fst (Receive [] (Chan w))))"
proof -
  let ?n = "2 ^ 64 - 1 :: nat"
  let ?ops = "replicate ?n (OpCall (CallReceive 0 ([] :: nat Call list)))"
  have eq: "?ops = map OpCall (replicate ?n (CallReceive 0 []))" by (simp only: map_replicate)
  have nt: "Throw \<notin> set (replicate ?n (CallReceive 0 ([] :: nat Call list)))" by simp
  have "run ?ops (World_init 0) = Inr (run_calls (replicate ?n (CallReceive 0 [])) (World_init 0))"
    unfolding eq by (rule run_OpCall [OF nt])
  then obtain w where w: "run ?ops (World_init (0::nat)) = Inr w" by blast
  have "receives ?ops = ?n" by (simp add: receives_def)
  with run_Next [OF w] have "NextReceiverIndex (Chan w) = 1 + of_nat ?n" by simp
  also have "\<dots> = (0 :: 64 word)" by simp
  finally have "NextReceiverIndex (Chan w) = 0" .
  with w show ?thesis by (simp add: IsValid_def)
qed










end
